theory Spec2Isabelle
  imports Complex_Main
begin

section \<open>Data model of the playback engine (disk\_read\_base)\<close>

text \<open>
  The engine is the C++ class \<open>disk_read_base\<close>. Its member variables become the fields
  of one record, every member function a function from the record to the updated record.
  The class declaration, the sample types, the \<open>file\<close> class, the indexer of the derived
  class and the codec are not part of the translated source; the places where the model
  depends on them say so.
\<close>

type_synonym rs_stream = nat
  \<comment> \<open>librealsense's enum \<open>rs_stream\<close>, by the integer value of each member\<close>

definition RS_STREAM_COUNT :: rs_stream where
  "RS_STREAM_COUNT = 12"
  \<comment> \<open>the last member of the enum: the number of streams, used as "no stream"\<close>

datatype sample_type = st_image | st_motion | st_time | st_debug_event | st_undefined nat

datatype compression_type = none | lz4 | h264 | ct_unknown nat

datatype chunk_id = chunk_image_metadata | chunk_sample_data | chunk_other nat

datatype thread = Not_a_thread | Running | Finished
  \<comment> \<open>\<open>m_thread\<close>: no thread; a thread executing \<open>read_thread\<close>; a thread whose
     \<open>read_thread\<close> has returned and that has not been joined yet\<close>

definition joinable :: "thread \<Rightarrow> bool" where
  "joinable t = (t \<noteq> Not_a_thread)"

datatype error =
    Resume_while_streaming   \<comment> \<open>"resume while streaming is not allowed"\<close>
  | Eof_callback_null        \<comment> \<open>"end of file callback is null"\<close>
  | Unsupported_stream       \<comment> \<open>"unsupported stream"\<close>
  | Undefined_sample_type    \<comment> \<open>"undefind sample type"\<close>
  | Unsupported_compression  \<comment> \<open>"unsupported compression type"\<close>
  | Bad_alloc                \<comment> \<open>\<open>std::bad_alloc\<close>, thrown by \<open>new\<close>\<close>

text \<open>
  A sample descriptor. \<open>frame_sample\<close> extends \<open>sample\<close> by \<open>finfo\<close> and the pixel
  buffer; the model keeps one record, in which the \<open>finfo\<close> fields are meaningful when
  \<open>info_type\<close> is \<open>st_image\<close> (the descriptors of image samples are the
  \<open>frame_sample\<close> objects). \<open>info_capture_time\<close> is a 64-bit unsigned integer,
  \<open>finfo_time_stamp\<close> a finite double, which is a real number. \<open>data\<close> is the size
  of the owned pixel buffer, if there is one; the pixel bytes themselves are not modelled.
\<close>

record sample =
  info_type :: sample_type
  info_capture_time :: nat
  info_offset :: nat
  finfo_stream :: rs_stream
  finfo_time_stamp :: real
  finfo_ctype :: compression_type
  data :: "nat option"

record stream_info =
  stream :: rs_stream
  nframes :: nat
  ctype :: compression_type
  profile_width :: nat
  profile_height :: nat

record active_stream_info =
  m_stream_info :: stream_info
  m_image_indices_copy :: "nat list"  \<comment> \<open>the member \<open>m_image_indices\<close> of the struct\<close>
  m_prefetched_samples_count :: nat  \<comment> \<open>a 32-bit unsigned counter\<close>

record chunk_info =
  chunk_ident :: chunk_id
  chunk_size :: nat

subsection \<open>std::map as a list of pairs ordered by key\<close>

fun find_key :: "(nat \<times> 'v) list \<Rightarrow> nat \<Rightarrow> 'v option" where
  "find_key [] k = None"
| "find_key ((k', v) # m) k = (if k' = k then Some v else find_key m k)"

fun put_key :: "(nat \<times> 'v) list \<Rightarrow> nat \<Rightarrow> 'v \<Rightarrow> (nat \<times> 'v) list" where
  "put_key [] k v = [(k, v)]"
| "put_key ((k', v') # m) k v =
     (if k < k' then (k, v) # (k', v') # m
      else if k = k' then (k, v) # m
      else (k', v') # put_key m k v)"

fun erase_key :: "(nat \<times> 'v) list \<Rightarrow> nat \<Rightarrow> (nat \<times> 'v) list" where
  "erase_key [] k = []"
| "erase_key ((k', v) # m) k = (if k' = k then erase_key m k else (k', v) # erase_key m k)"

definition keys :: "(nat \<times> 'v) list \<Rightarrow> nat set" where
  "keys m = fst ` set m"

text \<open>
  \<open>m[k]\<close> of std::map: the value stored under \<open>k\<close>; when there is none, a
  value-initialised one is inserted first and returned.
\<close>

definition subscript :: "'v \<Rightarrow> (nat \<times> 'v) list \<Rightarrow> nat \<Rightarrow> 'v \<times> (nat \<times> 'v) list" where
  "subscript dflt m k =
     (case find_key m k of Some v \<Rightarrow> (v, m) | None \<Rightarrow> (dflt, put_key m k dflt))"

definition default_stream_info :: stream_info where
  "default_stream_info =
     \<lparr>stream = 0, nframes = 0, ctype = none, profile_width = 0, profile_height = 0\<rparr>"

definition default_active_stream_info :: active_stream_info where
  "default_active_stream_info =
     \<lparr>m_stream_info = default_stream_info, m_image_indices_copy = [],
      m_prefetched_samples_count = 0\<rparr>"

subsection \<open>The file handle\<close>

text \<open>
  Modelled from the spec: the class \<open>file\<close> (include/file.h) is not part of the
  translated source. The spec describes it as a byte-addressable file-read primitive
  (open, seek, read) whose failures are returned as a status. The handle has a position;
  \<open>can_seek\<close> says which absolute offsets \<open>set_position\<close> accepts, \<open>chunk_at\<close> which
  chunk header a read of \<open>sizeof(chunk)\<close> bytes at an offset yields (\<open>None\<close>: the read
  fails and leaves the destination as it was), \<open>bytes_at\<close> how many of the requested
  payload bytes a read at an offset delivers.
\<close>

record file_handle =
  position :: nat
  can_seek :: "nat \<Rightarrow> bool"
  chunk_at :: "nat \<Rightarrow> chunk_info option"
  bytes_at :: "nat \<Rightarrow> nat \<Rightarrow> nat"

definition sizeof_chunk :: nat where
  "sizeof_chunk = 8"

definition set_position_begin :: "nat \<Rightarrow> file_handle \<Rightarrow> bool \<times> file_handle" where
  "set_position_begin off f =
     (if can_seek f off then (True, f\<lparr>position := off\<rparr>) else (False, f))"

definition set_position_current :: "nat \<Rightarrow> file_handle \<Rightarrow> bool \<times> file_handle" where
  "set_position_current d f =
     (if can_seek f (position f + d) then (True, f\<lparr>position := position f + d\<rparr>)
      else (False, f))"

definition read_chunk :: "chunk_info \<Rightarrow> file_handle \<Rightarrow> chunk_info \<times> file_handle" where
  "read_chunk chunk f =
     (case chunk_at f (position f) of
        None \<Rightarrow> (chunk, f)
      | Some c \<Rightarrow> (c, f\<lparr>position := position f + sizeof_chunk\<rparr>))"

definition read_bytes :: "nat \<Rightarrow> file_handle \<Rightarrow> nat \<times> file_handle" where
  "read_bytes n f =
     (let num_bytes_read = min n (bytes_at f (position f) n)
      in (num_bytes_read, f\<lparr>position := position f + num_bytes_read\<rparr>))"

subsection \<open>The engine state\<close>

text \<open>
  \<open>m_file_indexing\<close> is the indexing handle: the model keeps the sample records of the
  file that it has not scanned yet, in file order. \<open>threads_started\<close> counts the
  read loops ever started.
  \<open>m_eof_callback\<close> says whether the end-of-file callback is set, \<open>eof_calls\<close> counts
  its invocations, and \<open>delivered\<close> lists the samples handed to \<open>m_sample_callback\<close>,
  oldest first. \<open>clock\<close> is the reading of \<open>high_resolution_clock::now()\<close> in
  microseconds: it advances in \<open>sleep_for\<close> by the time slept, and at every iteration of
  the read loop by the time the surroundings let pass; \<open>ticks\<close> counts these
  iterations. \<open>m_decoder\<close> is the compression configuration of the decoder object,
  \<open>None\<close> for the null pointer, and \<open>m_encoded_data\<close> the size of the scratch buffer.
\<close>

record disk_read_base =
  m_pause :: bool
  m_realtime :: bool
  m_streams_infos :: "(rs_stream \<times> stream_info) list"
  m_base_ts :: nat
  m_base_sys_time :: nat
  m_is_index_complete :: bool
  m_samples_desc_index :: nat
  m_is_motion_tracking_enabled :: bool
  m_samples_desc :: "sample list"
  m_image_indices :: "(rs_stream \<times> nat list) list"
  m_active_streams_info :: "(rs_stream \<times> active_stream_info) list"
  m_prefetched_samples :: "sample list"
  m_file_data_read :: file_handle
  m_file_indexing :: "sample list"
  m_decoder :: "(rs_stream \<times> compression_type) list option"
  m_encoded_data :: nat
  m_thread :: thread
  threads_started :: nat
  m_eof_callback :: bool
  eof_calls :: nat
  delivered :: "sample list"
  clock :: nat
  ticks :: nat

text \<open>
  What the class takes from its surroundings: the two constants of the class declaration,
  \<open>size_of_pitches()\<close> of the derived class, and the codec's \<open>decode_frame\<close>, which
  gets the descriptor and the number of payload bytes read and returns the decoded frame
  or null. \<open>can_allocate n\<close> says whether \<open>new uint8_t[n]\<close> succeeds; when it does not,
  \<open>new\<close> throws \<open>std::bad_alloc\<close>. The allocations of objects of a fixed size are taken to
  succeed. \<open>lapse n\<close> is the time in microseconds that passes
  during the \<open>n\<close>-th iteration of the read loop, sleeps apart.
\<close>

record collaborators =
  NUMBER_OF_SAMPLES_TO_INDEX :: nat
  NUMBER_OF_REQUIRED_PREFETCHED_SAMPLES :: nat
  size_of_pitches :: nat
  decode_frame :: "sample \<Rightarrow> nat \<Rightarrow> sample option"
  can_allocate :: "nat \<Rightarrow> bool"
  lapse :: "nat \<Rightarrow> nat"

section \<open>Indexer\<close>

fun index_images :: "nat \<Rightarrow> sample list \<Rightarrow> (rs_stream \<times> nat list) list \<Rightarrow> (rs_stream \<times> nat list) list" where
  "index_images i [] m = m"
| "index_images i (x # xs) m =
     index_images (Suc i) xs
       (if info_type x = st_image
        then put_key m (finfo_stream x) (fst (subscript [] m (finfo_stream x)) @ [i])
        else m)"

text \<open>
  Modelled from the spec: \<open>index_next_samples\<close> is implemented in the derived class, which
  is not part of the translated source. By the spec it scans forward from the last scanned
  position, parses up to \<open>number_of_samples\<close> new sample records, appends their
  descriptors, appends each image sample's position to the index of its stream, sets the
  completion flag on reaching the end of the file, and does nothing once the flag is set.
  The end of the file is reached when a record is looked for and none is left.
\<close>

definition index_next_samples :: "nat \<Rightarrow> disk_read_base \<Rightarrow> disk_read_base" where
  "index_next_samples number_of_samples s =
     (if m_is_index_complete s then s
      else let found = take number_of_samples (m_file_indexing s)
           in s\<lparr>m_samples_desc := m_samples_desc s @ found,
                m_image_indices := index_images (length (m_samples_desc s)) found (m_image_indices s),
                m_file_indexing := drop number_of_samples (m_file_indexing s),
                m_is_index_complete := length (m_file_indexing s) < number_of_samples\<rparr>)"

section \<open>Prefetcher\<close>

fun streams_ready :: "(rs_stream \<times> active_stream_info) list \<Rightarrow> bool" where
  "streams_ready [] = True"
| "streams_ready ((k, asi) # m) =
     (if m_prefetched_samples_count asi > 0 then streams_ready m else False)"

definition all_samples_bufferd :: "collaborators \<Rightarrow> disk_read_base \<Rightarrow> bool" where
  "all_samples_bufferd E s =
     (if m_is_index_complete s \<and> m_samples_desc_index s \<ge> length (m_samples_desc s)
         \<and> length (m_prefetched_samples s) > 0
      then True
      else if \<not> streams_ready (m_active_streams_info s) then False
      else length (m_prefetched_samples s) >
             (if m_is_motion_tracking_enabled s then NUMBER_OF_REQUIRED_PREFETCHED_SAMPLES E else 0))"


definition bump :: "(nat \<Rightarrow> nat) \<Rightarrow> (rs_stream \<times> active_stream_info) list \<Rightarrow> rs_stream
    \<Rightarrow> (rs_stream \<times> active_stream_info) list" where
  "bump f m k =
     (let (asi, m') = subscript default_active_stream_info m k
      in put_key m' k (asi\<lparr>m_prefetched_samples_count := f (m_prefetched_samples_count asi)\<rparr>))"
  \<comment> \<open>\<open>m[k].m_prefetched_samples_count++\<close> and \<open>--\<close>, with \<open>f\<close> the change of the counter\<close>

definition increment :: "nat \<Rightarrow> nat" where
  "increment c = (c + 1) mod 2 ^ 32"

definition decrement :: "nat \<Rightarrow> nat" where
  "decrement c = (c + 2 ^ 32 - 1) mod 2 ^ 32"

section \<open>Controls\<close>

definition enable_stream :: "rs_stream \<Rightarrow> bool \<Rightarrow> disk_read_base \<Rightarrow> error + disk_read_base" where
  "enable_stream strm state s =
     (if find_key (m_streams_infos s) strm = None then Inl Unsupported_stream
      else if state then
        let (indices, mii) = subscript [] (m_image_indices s) strm;
            (si, msi) = subscript default_stream_info (m_streams_infos s) strm;
            asi = \<lparr>m_stream_info = si, m_image_indices_copy = indices,
                   m_prefetched_samples_count = 0\<rparr>
        in Inr (s\<lparr>m_image_indices := mii, m_streams_infos := msi,
                  m_active_streams_info := put_key (m_active_streams_info s) strm asi\<rparr>)
      else Inr (s\<lparr>m_active_streams_info := erase_key (m_active_streams_info s) strm\<rparr>))"

definition enable_motions_callback :: "bool \<Rightarrow> disk_read_base \<Rightarrow> disk_read_base" where
  "enable_motions_callback state s = s\<lparr>m_is_motion_tracking_enabled := state\<rparr>"

section \<open>Pacing clock\<close>

definition update_time_base :: "disk_read_base \<Rightarrow> disk_read_base" where
  "update_time_base s =
     (let s1 = s\<lparr>m_base_sys_time := clock s\<rparr>
      in if m_samples_desc_index s1 > 0 then
           if length (m_prefetched_samples s1) > 0
           then s1\<lparr>m_base_ts := info_capture_time (hd (m_prefetched_samples s1))\<rparr>
           else s1\<lparr>m_base_ts :=
                  (if m_samples_desc_index s1 < length (m_samples_desc s1)
                   then info_capture_time (m_samples_desc s1 ! m_samples_desc_index s1)
                   else 0)\<rparr>
         else s1\<lparr>m_base_ts := 0\<rparr>)"

definition query_run_time :: "disk_read_base \<Rightarrow> nat" where
  "query_run_time s = nat ((int (clock s) - int (m_base_sys_time s)) mod 2 ^ 64)"

definition to_int32 :: "int \<Rightarrow> int" where
  "to_int32 x = (x + 2 ^ 31) mod 2 ^ 32 - 2 ^ 31"
  \<comment> \<open>\<open>static_cast<int>\<close> of an unsigned 64-bit value: the low 32 bits, read as signed\<close>

definition calc_sleep_time :: "disk_read_base \<Rightarrow> sample \<Rightarrow> int" where
  "calc_sleep_time s smp =
     (let time_span = query_run_time s;
          time_stamp = info_capture_time smp
      in to_int32 ((int time_stamp - int (m_base_ts s) - int time_span) mod 2 ^ 64))"

definition set_realtime :: "bool \<Rightarrow> disk_read_base \<Rightarrow> disk_read_base" where
  "set_realtime realtime s = update_time_base (s\<lparr>m_realtime := realtime\<rparr>)"

section \<open>Playback controller: resume, pause, delivery\<close>

text \<open>
  \<open>resume\<close> returns the exception it throws, if any, with the state it leaves: the
  assignments before the \<open>throw\<close> stay. What the started thread does is
  \<open>read_thread\<close> below; \<open>pause\<close> joins it.
\<close>

definition resume :: "disk_read_base \<Rightarrow> error option \<times> disk_read_base" where
  "resume s =
     (let s1 = update_time_base (s\<lparr>m_pause := False\<rparr>)
      in if joinable (m_thread s1) then (Some Resume_while_streaming, s1)
         else (None, s1\<lparr>m_thread := Running, threads_started := threads_started s1 + 1\<rparr>))"

definition pause :: "disk_read_base \<Rightarrow> disk_read_base" where
  "pause s =
     (let s1 = s\<lparr>m_pause := True\<rparr>
      in if joinable (m_thread s1) then s1\<lparr>m_thread := Not_a_thread\<rparr> else s1)"

function notify_available_samples :: "disk_read_base \<Rightarrow> disk_read_base" where
  "notify_available_samples s =
     (if \<not> m_pause s then
        (case m_prefetched_samples s of
           [] \<Rightarrow> s
         | front # rest \<Rightarrow>
             if calc_sleep_time s front > 0 \<and> m_realtime s then s
             else
               let s1 = (if info_type front = st_image
                         then s\<lparr>m_active_streams_info :=
                                  bump decrement (m_active_streams_info s) (finfo_stream front)\<rparr>
                         else s);
                   s2 = s1\<lparr>delivered := delivered s1 @ [front]\<rparr>
               in notify_available_samples (s2\<lparr>m_prefetched_samples := rest\<rparr>))
      else s)"
  by pat_completeness auto
termination
  by (relation "measure (\<lambda>s. length (m_prefetched_samples s))") auto

section \<open>Decoder\<close>

definition init_decoder :: "disk_read_base \<Rightarrow> disk_read_base" where
  "init_decoder s =
     (let buffer_size =
            foldl (\<lambda>b (k, asi).
                     let size = (profile_width (m_stream_info asi) * profile_height (m_stream_info asi)) mod 2 ^ 32
                     in if size > b then size else b)
                  0 (m_active_streams_info s);
          compression_config = map (\<lambda>(k, asi). (k, ctype (m_stream_info asi))) (m_active_streams_info s)
      in s\<lparr>m_decoder := Some compression_config, m_encoded_data := (buffer_size * 4) mod 2 ^ 32\<rparr>)"

text \<open>
  Modelled from the spec: \<open>read_frame_metadata\<close> is not part of the translated source. By
  the spec the metadata chunk is a variable-length payload attached to the frame before
  the pixel chunk: the model reads its bytes from the data handle; the metadata itself is
  not modelled.
\<close>

definition read_frame_metadata :: "nat \<Rightarrow> disk_read_base \<Rightarrow> disk_read_base" where
  "read_frame_metadata num_bytes_to_read s =
     s\<lparr>m_file_data_read := snd (read_bytes num_bytes_to_read (m_file_data_read s))\<rparr>"

text \<open>
  The loop \<open>for (;;)\<close> of \<open>read_image_buffer\<close>. It has no bound: the result is \<open>None\<close> when
  it never leaves. Otherwise the result is the exception thrown or the frame returned
  (\<open>None\<close> for the null pointer), with the state left behind. \<open>num_bytes_to_read\<close> is an
  unsigned 64-bit integer, which wraps around when the chunk is smaller than the pitch
  table; the buffer of an uncompressed frame is allocated with that size, and the payload
  read takes its low 32 bits.
\<close>

partial_function (option) read_chunks ::
  "collaborators \<Rightarrow> sample \<Rightarrow> chunk_info \<Rightarrow> disk_read_base
    \<Rightarrow> ((error + sample option) \<times> disk_read_base) option" where
  "read_chunks E frame chunk s =
     (let (chunk', f1) = read_chunk chunk (m_file_data_read s);
          s1 = s\<lparr>m_file_data_read := f1\<rparr>;
          num_bytes_to_read = chunk_size chunk'
      in case chunk_ident chunk' of
           chunk_image_metadata \<Rightarrow>
             if num_bytes_to_read > 0
             then read_chunks E frame chunk' (read_frame_metadata num_bytes_to_read s1)
             else read_chunks E frame chunk' s1
         | chunk_sample_data \<Rightarrow>
             let f2 = snd (set_position_current (size_of_pitches E) f1);
                 num_bytes_to_read = (num_bytes_to_read + 2 ^ 64 - size_of_pitches E mod 2 ^ 64) mod 2 ^ 64
             in (case finfo_ctype frame of
                   none \<Rightarrow>
                     if \<not> can_allocate E num_bytes_to_read
                     then Some (Inl Bad_alloc, s\<lparr>m_file_data_read := f2\<rparr>)
                     else
                       let (num_bytes_read, f3) = read_bytes (num_bytes_to_read mod 2 ^ 32) f2
                       in Some (Inr (Some (frame\<lparr>data := Some num_bytes_to_read\<rparr>)),
                                s\<lparr>m_file_data_read := f3\<rparr>)
                 | lz4 \<Rightarrow>
                     let (num_bytes_read, f3) = read_bytes (num_bytes_to_read mod 2 ^ 32) f2
                     in Some (Inr (decode_frame E frame num_bytes_read), s\<lparr>m_file_data_read := f3\<rparr>)
                 | h264 \<Rightarrow>
                     let (num_bytes_read, f3) = read_bytes (num_bytes_to_read mod 2 ^ 32) f2
                     in Some (Inr (decode_frame E frame num_bytes_read), s\<lparr>m_file_data_read := f3\<rparr>)
                 | ct_unknown c \<Rightarrow> Some (Inl Unsupported_compression, s\<lparr>m_file_data_read := f2\<rparr>))
         | chunk_other c \<Rightarrow>
             if num_bytes_to_read = 0 then Some (Inr None, s1)
             else read_chunks E frame chunk'
                    (s1\<lparr>m_file_data_read := snd (set_position_current num_bytes_to_read f1)\<rparr>))"

text \<open>
  \<open>chunk = {}\<close> is the zeroed chunk header: identifier 0, which is none of the two
  identifiers the loop looks for, and size 0.
\<close>

definition read_image_buffer ::
  "collaborators \<Rightarrow> sample \<Rightarrow> disk_read_base \<Rightarrow> ((error + sample option) \<times> disk_read_base) option" where
  "read_image_buffer E frame s =
     (let (sts, f1) = set_position_begin (info_offset frame) (m_file_data_read s);
          s1 = s\<lparr>m_file_data_read := f1\<rparr>;
          s2 = (if m_decoder s1 = None then init_decoder s1 else s1)
      in if \<not> sts then Some (Inr None, s2)
         else read_chunks E frame \<lparr>chunk_ident = chunk_other 0, chunk_size = 0\<rparr> s2)"

section \<open>Prefetching one sample\<close>

text \<open>
  The result is \<open>None\<close> when the decode never returns; otherwise the exception thrown, if
  any, and the state left behind.
\<close>

definition prefetch_sample :: "collaborators \<Rightarrow> disk_read_base \<Rightarrow> (error option \<times> disk_read_base) option" where
  "prefetch_sample E s =
     (if m_samples_desc_index s \<ge> length (m_samples_desc s) \<or> all_samples_bufferd E s
      then Some (None, s)
      else
        let smp = m_samples_desc s ! m_samples_desc_index s;
            s1 = s\<lparr>m_samples_desc_index := m_samples_desc_index s + 1\<rparr>
        in case info_type smp of
             st_image \<Rightarrow>
               if find_key (m_active_streams_info s1) (finfo_stream smp) = None then Some (None, s1)
               else (case read_image_buffer E smp s1 of
                       None \<Rightarrow> None
                     | Some (Inl e, s2) \<Rightarrow> Some (Some e, s2)
                     | Some (Inr None, s2) \<Rightarrow> Some (None, s2)
                     | Some (Inr (Some current), s2) \<Rightarrow>
                         Some (None,
                               s2\<lparr>m_active_streams_info :=
                                     bump increment (m_active_streams_info s2) (finfo_stream smp),
                                   m_prefetched_samples := m_prefetched_samples s2 @ [current]\<rparr>))
           | st_motion \<Rightarrow>
               Some (None, if m_is_motion_tracking_enabled s1
                           then s1\<lparr>m_prefetched_samples := m_prefetched_samples s1 @ [smp]\<rparr> else s1)
           | st_time \<Rightarrow>
               Some (None, if m_is_motion_tracking_enabled s1
                           then s1\<lparr>m_prefetched_samples := m_prefetched_samples s1 @ [smp]\<rparr> else s1)
           | st_debug_event \<Rightarrow> Some (None, s1)
           | st_undefined t \<Rightarrow> Some (Some Undefined_sample_type, s1))"


section \<open>Seeking\<close>

subsection \<open>Nearest frames\<close>

text \<open>
  The backward loop of \<open>find_nearest_frames\<close>: \<open>n\<close> is
  \<open>m_active_streams_info.size()\<close>, the result is \<open>prev_index\<close>.
\<close>

function find_prev :: "sample list \<Rightarrow> nat \<Rightarrow> nat \<Rightarrow> (rs_stream \<times> nat) list \<Rightarrow> (rs_stream \<times> nat) list" where
  "find_prev descs n index prev_index =
     (if index > 0 \<and> length prev_index < n then
        if info_type (descs ! (index - 1)) \<noteq> st_image
        then find_prev descs n (index - 1) prev_index
        else if find_key prev_index (finfo_stream (descs ! (index - 1))) \<noteq> None
        then find_prev descs n (index - 1) prev_index
        else find_prev descs n (index - 1)
               (put_key prev_index (finfo_stream (descs ! (index - 1))) (index - 1))
      else prev_index)"
  by pat_completeness auto
termination
  by (relation "measure (\<lambda>(descs, n, index, prev_index). index)") auto

text \<open>
  The forward loop, which indexes further when it runs out of descriptors. With a batch
  size of 0 the indexer adds nothing and the loop never leaves: the result is \<open>None\<close>.
\<close>

function find_next ::
  "collaborators \<Rightarrow> disk_read_base \<Rightarrow> nat \<Rightarrow> (rs_stream \<times> nat) list
    \<Rightarrow> (disk_read_base \<times> (rs_stream \<times> nat) list) option" where
  "find_next E s index next_index =
     (if length next_index < length (m_active_streams_info s) then
        if index + 1 \<ge> length (m_samples_desc s) \<and> m_is_index_complete s then Some (s, next_index)
        else
          let s1 = (if index + 1 \<ge> length (m_samples_desc s)
                    then index_next_samples (NUMBER_OF_SAMPLES_TO_INDEX E) s else s)
          in if index + 1 \<ge> length (m_samples_desc s1) then
               (if NUMBER_OF_SAMPLES_TO_INDEX E = 0 then None else find_next E s1 index next_index)
             else if info_type (m_samples_desc s1 ! (index + 1)) \<noteq> st_image
             then find_next E s1 (index + 1) next_index
             else if find_key next_index (finfo_stream (m_samples_desc s1 ! (index + 1))) \<noteq> None
             then find_next E s1 (index + 1) next_index
             else find_next E s1 (index + 1)
                    (put_key next_index (finfo_stream (m_samples_desc s1 ! (index + 1))) (index + 1))
      else Some (s, next_index))"
  by pat_completeness auto
termination
proof (relation "measure (\<lambda>(E, s, index, next_index).
          length (m_file_indexing s) + (if m_is_index_complete s then 0 else 1)
          + (length (m_samples_desc s) + length (m_file_indexing s) - index))", goal_cases)
  case 1
  show ?case by simp
next
  case (2 E s index next_index x)
  then show ?case
    by (cases "m_file_indexing s") (auto simp: index_next_samples_def Let_def split: if_splits)
next
  case (3 E s index next_index x)
  then show ?case
    by (auto simp: index_next_samples_def Let_def split: if_splits)
next
  case (4 E s index next_index x)
  then show ?case
    by (auto simp: index_next_samples_def Let_def split: if_splits)
next
  case (5 E s index next_index x)
  then show ?case
    by (auto simp: index_next_samples_def Let_def split: if_splits)
qed


text \<open>
  The choice for one active stream \<open>k\<close>, \<open>strm\<close> being the anchor's stream:
  \<open>prev_index[k]\<close> and \<open>next_index[k]\<close> are 0 when the loops above stored nothing for
  \<open>k\<close>.
\<close>

definition select_sample ::
  "sample list \<Rightarrow> (rs_stream \<times> nat) list \<Rightarrow> (rs_stream \<times> nat) list \<Rightarrow> nat \<Rightarrow> rs_stream
    \<Rightarrow> rs_stream \<Rightarrow> sample" where
  "select_sample descs prev_index next_index sample_index strm k =
     (let capture_time = info_capture_time (descs ! sample_index)
      in if k = strm then descs ! sample_index
         else
           let p = descs ! fst (subscript 0 prev_index k);
               n = descs ! fst (subscript 0 next_index k);
               prev = (if capture_time > info_capture_time p
                       then capture_time - info_capture_time p
                       else info_capture_time p - capture_time);
               next = (if capture_time > info_capture_time n
                       then capture_time - info_capture_time n
                       else info_capture_time n - capture_time)
           in if prev > next then n else p)"

fun decode_streams ::
  "collaborators \<Rightarrow> rs_stream list \<Rightarrow> (rs_stream \<times> nat) list \<Rightarrow> (rs_stream \<times> nat) list \<Rightarrow> nat
    \<Rightarrow> rs_stream \<Rightarrow> (rs_stream \<times> sample) list \<Rightarrow> disk_read_base
    \<Rightarrow> ((error + (rs_stream \<times> sample) list) \<times> disk_read_base) option" where
  "decode_streams E [] prev_index next_index sample_index strm rv s = Some (Inr rv, s)"
| "decode_streams E (k # ks) prev_index next_index sample_index strm rv s =
     (let smp = select_sample (m_samples_desc s) prev_index next_index sample_index strm k
      in if info_type smp = st_image then
           (case read_image_buffer E smp s of
              None \<Rightarrow> None
            | Some (Inl e, s') \<Rightarrow> Some (Inl e, s')
            | Some (Inr None, s') \<Rightarrow>
                decode_streams E ks prev_index next_index sample_index strm rv s'
            | Some (Inr (Some current), s') \<Rightarrow>
                decode_streams E ks prev_index next_index sample_index strm
                  (put_key rv (finfo_stream smp) current) s')
         else decode_streams E ks prev_index next_index sample_index strm rv s)"

definition find_nearest_frames ::
  "collaborators \<Rightarrow> nat \<Rightarrow> rs_stream \<Rightarrow> disk_read_base
    \<Rightarrow> ((error + (rs_stream \<times> sample) list) \<times> disk_read_base) option" where
  "find_nearest_frames E sample_index strm s =
     (let prev_index = find_prev (m_samples_desc s) (length (m_active_streams_info s)) sample_index []
      in case find_next E s sample_index [] of
           None \<Rightarrow> None
         | Some (s1, next_index) \<Rightarrow>
             (case decode_streams E (map fst (m_active_streams_info s1)) prev_index next_index
                     sample_index strm [] s1 of
                None \<Rightarrow> None
              | Some (Inl e, s2) \<Rightarrow> Some (Inl e, s2)
              | Some (Inr rv, s2) \<Rightarrow>
                  (case prefetch_sample E
                          (s2\<lparr>m_samples_desc_index := sample_index, m_prefetched_samples := []\<rparr>) of
                     None \<Rightarrow> None
                   | Some (Some e, s3) \<Rightarrow> Some (Inl e, s3)
                   | Some (None, s3) \<Rightarrow> Some (Inr rv, s3))))"

subsection \<open>Seek by index\<close>

function index_until_image ::
  "collaborators \<Rightarrow> nat \<Rightarrow> rs_stream \<Rightarrow> disk_read_base \<Rightarrow> disk_read_base option" where
  "index_until_image E index stream_type s =
     (let (indices, mii) = subscript [] (m_image_indices s) stream_type;
          s1 = s\<lparr>m_image_indices := mii\<rparr>
      in if index \<ge> length indices \<and> \<not> m_is_index_complete s1 then
           (if NUMBER_OF_SAMPLES_TO_INDEX E = 0 then None
            else index_until_image E index stream_type
                   (index_next_samples (NUMBER_OF_SAMPLES_TO_INDEX E) s1))
         else Some s1)"
  by pat_completeness auto
termination
proof (relation "measure (\<lambda>(E, index, stream_type, s).
          length (m_file_indexing s) + (if m_is_index_complete s then 0 else 1))", goal_cases)
  case 1
  show ?case by simp
next
  case (2 E index stream_type s x indices mii s1)
  then show ?case
    by (cases "m_file_indexing s") (auto simp: index_next_samples_def Let_def split: if_splits)
qed

definition set_frame_by_index ::
  "collaborators \<Rightarrow> nat \<Rightarrow> rs_stream \<Rightarrow> disk_read_base
    \<Rightarrow> ((error + (rs_stream \<times> sample) list) \<times> disk_read_base) option" where
  "set_frame_by_index E index stream_type s =
     (let previous_state = m_pause s
      in case index_until_image E index stream_type (pause s) of
           None \<Rightarrow> None
         | Some s1 \<Rightarrow>
             let (indices, mii) = subscript [] (m_image_indices s1) stream_type;
                 s2 = s1\<lparr>m_image_indices := mii\<rparr>
             in if index \<ge> length indices then Some (Inr [], s2)
                else (case find_nearest_frames E (indices ! index) stream_type s2 of
                        None \<Rightarrow> None
                      | Some (Inl e, s3) \<Rightarrow> Some (Inl e, s3)
                      | Some (Inr rv, s3) \<Rightarrow>
                          if \<not> previous_state then
                            (case resume s3 of
                               (Some e, s4) \<Rightarrow> Some (Inl e, s4)
                             | (None, s4) \<Rightarrow> Some (Inr rv, s4))
                          else Some (Inr rv, s3)))"

subsection \<open>Seek by time stamp\<close>

text \<open>
  \<open>(double)ts\<close> for a 64-bit unsigned integer \<open>ts\<close>: the value itself when it has at most
  53 significant bits, and otherwise the nearest double, which has 53 significant bits,
  the even one on a tie (the default rounding of IEEE 754).
\<close>

fun bit_length :: "nat \<Rightarrow> nat" where
  "bit_length n = (if n = 0 then 0 else Suc (bit_length (n div 2)))"

definition to_double :: "nat \<Rightarrow> real" where
  "to_double n =
     (if n < 2 ^ 53 then real n
      else
        let e = bit_length n - 53;
            q = n div 2 ^ e;
            r = n mod 2 ^ e
        in real ((if 2 * r > 2 ^ e \<or> (2 * r = 2 ^ e \<and> odd q) then q + 1 else q) * 2 ^ e))"

text \<open>
  The \<open>do ... while(++index)\<close> loop. \<open>index\<close> is a 32-bit unsigned integer, so the loop
  also ends when the increment wraps to 0. The result is the state, \<open>index\<close> and
  \<open>stream\<close> after the loop; the \<open>return rv\<close> inside the loop is the result with
  \<open>RS_STREAM_COUNT\<close>, on which the function returns \<open>rv\<close> as well.
\<close>

function time_stamp_scan ::
  "collaborators \<Rightarrow> nat \<Rightarrow> disk_read_base \<Rightarrow> nat \<Rightarrow> disk_read_base \<times> nat \<times> rs_stream" where
  "time_stamp_scan E ts s index =
     (if index \<ge> length (m_samples_desc s) \<and> m_is_index_complete s then (s, index, RS_STREAM_COUNT)
      else
        let s1 = (if index \<ge> length (m_samples_desc s)
                  then index_next_samples (NUMBER_OF_SAMPLES_TO_INDEX E) s else s)
        in if index < length (m_samples_desc s1)
              \<and> info_type (m_samples_desc s1 ! index) = st_image
              \<and> finfo_time_stamp (m_samples_desc s1 ! index) \<ge> to_double ts
           then (s1, index, finfo_stream (m_samples_desc s1 ! index))
           else if (index + 1) mod 2 ^ 32 = 0 then (s1, 0, RS_STREAM_COUNT)
           else time_stamp_scan E ts s1 (index + 1))"
  by pat_completeness auto
termination
proof (relation "measure (\<lambda>(E, ts, s, index). 2 ^ 32 - 1 - index mod 2 ^ 32)", goal_cases)
  case 1
  show ?case by simp
next
  case (2 E ts s index x)
  have "(index + 1) mod 2 ^ 32 = index mod 2 ^ 32 + 1"
    using 2 by (simp add: mod_Suc split: if_splits)
  moreover have "(index + 1) mod 2 ^ 32 < (2 ^ 32 :: nat)"
    by simp
  ultimately show ?case by simp
qed

definition set_frame_by_time_stamp ::
  "collaborators \<Rightarrow> nat \<Rightarrow> disk_read_base
    \<Rightarrow> ((error + (rs_stream \<times> sample) list) \<times> disk_read_base) option" where
  "set_frame_by_time_stamp E ts s =
     (let previous_state = m_pause s;
          (s1, index, strm) = time_stamp_scan E ts (pause s) 0
      in if strm = RS_STREAM_COUNT then Some (Inr [], s1)
         else (case find_nearest_frames E index strm s1 of
                 None \<Rightarrow> None
               | Some (Inl e, s3) \<Rightarrow> Some (Inl e, s3)
               | Some (Inr rv, s3) \<Rightarrow>
                   if \<not> previous_state then
                     (case resume s3 of
                        (Some e, s4) \<Rightarrow> Some (Inl e, s4)
                      | (None, s4) \<Rightarrow> Some (Inr rv, s4))
                   else Some (Inr rv, s3)))"


section \<open>The read loop\<close>

function index_until_desc :: "collaborators \<Rightarrow> disk_read_base \<Rightarrow> disk_read_base option" where
  "index_until_desc E s =
     (if m_samples_desc_index s \<ge> length (m_samples_desc s) \<and> \<not> m_is_index_complete s then
        (if NUMBER_OF_SAMPLES_TO_INDEX E = 0 then None
         else index_until_desc E (index_next_samples (NUMBER_OF_SAMPLES_TO_INDEX E) s))
      else Some s)"
  by pat_completeness auto
termination
proof (relation "measure (\<lambda>(E, s).
          length (m_file_indexing s) + (if m_is_index_complete s then 0 else 1))", goal_cases)
  case 1
  show ?case by simp
next
  case (2 E s)
  then show ?case
    by (cases "m_file_indexing s") (auto simp: index_next_samples_def Let_def split: if_splits)
qed

text \<open>
  The waiting loop of \<open>read_next_sample\<close>. \<open>sleep_for\<close> advances the clock by the time
  slept. The time the indexer takes is counted with the iteration of the read loop, below,
  so that inside this loop nothing else advances the clock, and with a batch size of 0 the
  loop never leaves.
\<close>

partial_function (option) wait_for_front :: "collaborators \<Rightarrow> disk_read_base \<Rightarrow> disk_read_base option" where
  "wait_for_front E s =
     (let time_to_next_sample = calc_sleep_time s (hd (m_prefetched_samples s))
      in if time_to_next_sample > 1000 then
           if m_is_index_complete s
           then wait_for_front E (s\<lparr>clock := clock s + nat time_to_next_sample\<rparr>)
           else if NUMBER_OF_SAMPLES_TO_INDEX E = 0 then None
           else wait_for_front E (index_next_samples (NUMBER_OF_SAMPLES_TO_INDEX E) s)
         else Some s)"

definition read_next_sample ::
  "collaborators \<Rightarrow> disk_read_base \<Rightarrow> ((error + bool) \<times> disk_read_base) option" where
  "read_next_sample E s =
     (case index_until_desc E (notify_available_samples s) of
        None \<Rightarrow> None
      | Some s1 \<Rightarrow>
          if m_samples_desc_index s1 \<ge> length (m_samples_desc s1) \<and> length (m_prefetched_samples s1) = 0
          then Some (Inr False, s1)
          else (case prefetch_sample E s1 of
                  None \<Rightarrow> None
                | Some (Some e, s2) \<Rightarrow> Some (Inl e, s2)
                | Some (None, s2) \<Rightarrow>
                    if all_samples_bufferd E s2 \<and> m_realtime s2 then
                      (case wait_for_front E s2 of
                         None \<Rightarrow> None
                       | Some s3 \<Rightarrow> Some (Inr True, s3))
                    else Some (Inr True, s2)))"

text \<open>
  Time passes while the loop runs: at each iteration the clock advances by what the
  surroundings let pass.
\<close>

definition elapse :: "collaborators \<Rightarrow> disk_read_base \<Rightarrow> disk_read_base" where
  "elapse E s = s\<lparr>clock := clock s + lapse E (ticks s), ticks := ticks s + 1\<rparr>"

text \<open>
  The loop of \<open>read_thread\<close>, with the local variable \<open>eof\<close>. An exception leaves the
  loop; the result is the exception, if any, the value of \<open>eof\<close> at the end, and the
  state. The model is sequential: \<open>m_pause\<close> changes only where this loop sets it.
  When \<open>read_thread\<close> returns, the thread has finished and stays joinable.
\<close>

partial_function (option) read_loop ::
  "collaborators \<Rightarrow> bool \<Rightarrow> disk_read_base \<Rightarrow> (error option \<times> bool \<times> disk_read_base) option" where
  "read_loop E eof s =
     (if \<not> m_pause s \<and> \<not> eof then
        (case read_next_sample E (elapse E s) of
           None \<Rightarrow> None
         | Some (Inl e, s1) \<Rightarrow> Some (Some e, eof, s1)
         | Some (Inr has_next, s1) \<Rightarrow>
             if \<not> has_next then
               if \<not> m_eof_callback s1 then Some (Some Eof_callback_null, True, s1)
               else read_loop E True (s1\<lparr>eof_calls := eof_calls s1 + 1, m_pause := True\<rparr>)
             else read_loop E False s1)
      else Some (None, eof, s))"

definition read_thread :: "collaborators \<Rightarrow> disk_read_base \<Rightarrow> (error option \<times> bool \<times> disk_read_base) option" where
  "read_thread E s =
     (case read_loop E False (s\<lparr>m_base_sys_time := clock s\<rparr>) of
        None \<Rightarrow> None
      | Some (Some e, eof, s') \<Rightarrow> Some (Some e, eof, s')
      | Some (None, eof, s') \<Rightarrow> Some (None, eof, s'\<lparr>m_thread := Finished\<rparr>))"

section \<open>Queries and reset\<close>

text \<open>
  The loop \<open>while (!m_is_index_complete) index_next_samples(max)\<close>, \<open>max\<close> being the
  largest 32-bit unsigned integer.
\<close>

function index_all :: "disk_read_base \<Rightarrow> disk_read_base" where
  "index_all s =
     (if \<not> m_is_index_complete s then index_all (index_next_samples 4294967295 s) else s)"
  by pat_completeness auto
termination
proof (relation "measure (\<lambda>s.
          length (m_file_indexing s) + (if m_is_index_complete s then 0 else 1))", goal_cases)
  case 1
  show ?case by simp
next
  case (2 s)
  then show ?case
    by (cases "m_file_indexing s") (auto simp: index_next_samples_def Let_def split: if_splits)
qed

definition query_number_of_frames :: "rs_stream \<Rightarrow> disk_read_base \<Rightarrow> nat \<times> disk_read_base" where
  "query_number_of_frames stream_type s =
     (let (si, msi) = subscript default_stream_info (m_streams_infos s) stream_type;
          s1 = s\<lparr>m_streams_infos := msi\<rparr>
      in if nframes si > 0 then (nframes si, s1)
         else
           let s2 = index_all s1;
               (indices, mii) = subscript [] (m_image_indices s2) stream_type
           in (length indices mod 2 ^ 32, s2\<lparr>m_image_indices := mii\<rparr>))"

text \<open>
  \<open>reset\<close>; the rewinding of the data handle (\<open>file::reset\<close>) is taken as positioning
  it at offset 0.
\<close>

fun reset_active ::
  "(rs_stream \<times> active_stream_info) list \<Rightarrow> disk_read_base \<Rightarrow> disk_read_base" where
  "reset_active [] s = s"
| "reset_active ((k, a) # m) s =
     (let (indices, mii) = subscript [] (m_image_indices s) k;
          (si, msi) = subscript default_stream_info (m_streams_infos s) k;
          asi = \<lparr>m_stream_info = si, m_image_indices_copy = indices, m_prefetched_samples_count = 0\<rparr>
      in reset_active m
           (s\<lparr>m_image_indices := mii, m_streams_infos := msi,
              m_active_streams_info := put_key (m_active_streams_info s) k asi\<rparr>))"

definition reset :: "disk_read_base \<Rightarrow> disk_read_base" where
  "reset s =
     (let s1 = pause s;
          s2 = s1\<lparr>m_file_data_read := (m_file_data_read s1)\<lparr>position := 0\<rparr>,
                  m_samples_desc_index := 0, m_prefetched_samples := []\<rparr>
      in (reset_active (m_active_streams_info s2) s2)\<lparr>m_decoder := None\<rparr>)"


section \<open>Example recordings\<close>

text \<open>
  The engine after the constructor and \<open>init\<close>: \<open>streams\<close> are the streams the file
  header declares, \<open>records\<close> the sample records of the file, \<open>f\<close> the data handle.
\<close>

definition opened :: "(rs_stream \<times> stream_info) list \<Rightarrow> sample list \<Rightarrow> file_handle \<Rightarrow> disk_read_base" where
  "opened streams records f =
     \<lparr>m_pause = True, m_realtime = True, m_streams_infos = streams, m_base_ts = 0,
      m_base_sys_time = 0, m_is_index_complete = False, m_samples_desc_index = 0,
      m_is_motion_tracking_enabled = False, m_samples_desc = [], m_image_indices = [],
      m_active_streams_info = [], m_prefetched_samples = [], m_file_data_read = f,
      m_file_indexing = records, m_decoder = None, m_encoded_data = 0,
      m_thread = Not_a_thread, threads_started = 0, m_eof_callback = False, eof_calls = 0,
      delivered = [], clock = 0, ticks = 0\<rparr>"

definition some_stream_info :: "rs_stream \<Rightarrow> stream_info" where
  "some_stream_info k =
     \<lparr>stream = k, nframes = 0, ctype = none, profile_width = 640, profile_height = 480\<rparr>"

definition image :: "rs_stream \<Rightarrow> nat \<Rightarrow> nat \<Rightarrow> sample" where
  "image k t off =
     \<lparr>info_type = st_image, info_capture_time = t, info_offset = off, finfo_stream = k,
      finfo_time_stamp = real t, finfo_ctype = none, data = None\<rparr>"
  \<comment> \<open>an uncompressed image sample of stream \<open>k\<close> captured at \<open>t\<close>, stored at \<open>off\<close>\<close>

definition motion :: "nat \<Rightarrow> nat \<Rightarrow> sample" where
  "motion t off =
     \<lparr>info_type = st_motion, info_capture_time = t, info_offset = off, finfo_stream = 0,
      finfo_time_stamp = 0, finfo_ctype = none, data = None\<rparr>"

definition the_collaborators :: collaborators where
  "the_collaborators =
     \<lparr>NUMBER_OF_SAMPLES_TO_INDEX = 100, NUMBER_OF_REQUIRED_PREFETCHED_SAMPLES = 60,
      size_of_pitches = 16, decode_frame = (\<lambda>frame n. None),
      can_allocate = (\<lambda>n. n < 2 ^ 63), lapse = (\<lambda>n. 100)\<rparr>"
  \<comment> \<open>allocations below 2^63 bytes succeed; every iteration of the read loop takes 100
     microseconds\<close>

text \<open>
  A data handle on which every seek succeeds and every sample record is one
  \<open>chunk_sample_data\<close> chunk of 116 bytes, all of which can be read.
\<close>

definition plain_file :: file_handle where
  "plain_file =
     \<lparr>position = 0, can_seek = (\<lambda>off. True),
      chunk_at = (\<lambda>off. Some \<lparr>chunk_ident = chunk_sample_data, chunk_size = 116\<rparr>),
      bytes_at = (\<lambda>off n. n)\<rparr>"

text \<open>
  A state in which indexing is complete, every descriptor is consumed, the colour stream is
  active with no frame ready, and one motion sample waits in the queue.
\<close>

definition motion_only_state :: disk_read_base where
  "motion_only_state =
     (opened [(1, some_stream_info 1)] [] plain_file)
       \<lparr>m_is_index_complete := True, m_is_motion_tracking_enabled := True,
        m_samples_desc := [motion 5 0], m_samples_desc_index := 1,
        m_active_streams_info :=
          [(1, \<lparr>m_stream_info = some_stream_info 1, m_image_indices_copy = [],
                m_prefetched_samples_count = 0\<rparr>)],
        m_prefetched_samples := [motion 5 0]\<rparr>"

text \<open>A state in which the only active stream has one frame ready, in the queue.\<close>

definition one_ready_state :: disk_read_base where
  "one_ready_state =
     (opened [(1, some_stream_info 1)] [image 1 7 100] plain_file)
       \<lparr>m_samples_desc := [image 1 5 0], m_samples_desc_index := 1,
        m_active_streams_info :=
          [(1, \<lparr>m_stream_info = some_stream_info 1, m_image_indices_copy = [],
                m_prefetched_samples_count = 1\<rparr>)],
        m_prefetched_samples := [image 1 5 0]\<rparr>"

text \<open>
  A recording with the streams 0 and 1; the file is indexed, both streams are enabled and
  stream 1 is then disabled, by the public operations.
\<close>

definition stream_b_disabled :: disk_read_base where
  "stream_b_disabled =
     projr (enable_stream 1 False
       (projr (enable_stream 1 True
         (projr (enable_stream 0 True
           (index_next_samples 100
             (opened [(0, some_stream_info 0), (1, some_stream_info 1)]
                     [image 1 0 0, image 0 0 200] plain_file)))))))"

text \<open>
  A recording with the streams 0 and 1, one image sample of each: the file is indexed,
  stream 0 is enabled, stream 1 is not, and one call of \<open>prefetch_sample\<close> has decoded the
  sample of stream 0 into the queue.
\<close>

definition first_frame_buffered :: disk_read_base where
  "first_frame_buffered =
     snd (the (prefetch_sample the_collaborators
       (projr (enable_stream 0 True
         (index_next_samples 100
           (opened [(0, some_stream_info 0), (1, some_stream_info 1)]
                   [image 0 0 0, image 1 3 200] plain_file))))))"

text \<open>
  A running engine whose queue holds an image sample captured at 2^31, with the time
  base at 0.
\<close>

definition far_sample_state :: disk_read_base where
  "far_sample_state =
     (opened [(1, some_stream_info 1)] [] plain_file)
       \<lparr>m_pause := False, m_samples_desc := [image 1 2147483648 0], m_samples_desc_index := 1,
        m_prefetched_samples := [image 1 2147483648 0]\<rparr>"

text \<open>A running engine, not in realtime mode, with two motion samples in the queue.\<close>

definition two_queued_state :: disk_read_base where
  "two_queued_state =
     (opened [(1, some_stream_info 1)] [] plain_file)
       \<lparr>m_pause := False, m_realtime := False,
        m_samples_desc := [motion 500 0, motion 90000 100], m_samples_desc_index := 2,
        m_prefetched_samples := [motion 500 0, motion 90000 100]\<rparr>"

text \<open>
  A recording of one motion sample with the end-of-file callback set, and the state of the
  engine after \<open>resume\<close> and a play-through of it to the end of the file.
\<close>

definition one_motion_recording :: disk_read_base where
  "one_motion_recording = (opened [(1, some_stream_info 1)] [motion 5 0] plain_file)\<lparr>m_eof_callback := True\<rparr>"

definition played_to_end :: disk_read_base where
  "played_to_end =
     one_motion_recording
       \<lparr>m_pause := True, m_is_index_complete := True, m_samples_desc := [motion 5 0],
        m_file_indexing := [], m_samples_desc_index := 1, m_thread := Finished,
        threads_started := 1, eof_calls := 1, clock := 200, ticks := 2\<rparr>"

text \<open>
  A recording of one image sample of stream 0, captured at 250 microseconds, with stream 0
  enabled and the end-of-file callback set, after \<open>resume\<close> (realtime mode is the default);
  and the state of the engine after a play-through of it to the end of the file, in which
  the frame was delivered.
\<close>

definition realtime_recording :: disk_read_base where
  "realtime_recording =
     snd (resume
       ((projr (enable_stream 0 True
           (opened [(0, some_stream_info 0)] [image 0 250 0] plain_file)))
          \<lparr>m_eof_callback := True\<rparr>))"

definition realtime_played :: disk_read_base where
  "realtime_played =
     realtime_recording
       \<lparr>m_pause := True, m_is_index_complete := True, m_samples_desc_index := 1,
        m_samples_desc := [image 0 250 0], m_image_indices := [(0, [0])],
        m_file_data_read := plain_file\<lparr>position := 124\<rparr>, m_file_indexing := [],
        m_decoder := Some [(0, none)], m_encoded_data := 1228800, m_thread := Finished,
        eof_calls := 1, delivered := [(image 0 250 0)\<lparr>data := Some 100\<rparr>],
        clock := 300, ticks := 3\<rparr>"

text \<open>
  A recording whose header declares no frame count for stream 0 and 7 frames for stream 1.
\<close>

definition counted_recording :: disk_read_base where
  "counted_recording =
     opened [(0, some_stream_info 0), (1, (some_stream_info 1)\<lparr>nframes := 7\<rparr>)]
            [image 0 0 0, image 1 1 200, image 0 10 400] plain_file"

text \<open>A recording whose header declares the streams 0 and 1.\<close>

definition two_stream_recording :: disk_read_base where
  "two_stream_recording =
     opened [(0, some_stream_info 0), (1, some_stream_info 1)]
            [image 0 0 0, image 1 3 200] plain_file"

text \<open>
  A data handle whose file ends after the chunk header of a sample: seeks succeed, the
  chunk header is read, no payload byte is. And a recording of one image sample on it,
  indexed, with the stream of the sample enabled.
\<close>

definition truncated_file :: file_handle where
  "truncated_file = plain_file\<lparr>bytes_at := (\<lambda>off n. 0)\<rparr>"

definition truncated_recording :: disk_read_base where
  "truncated_recording =
     projr (enable_stream 1 True
       (index_next_samples 100 (opened [(1, some_stream_info 1)] [image 1 5 0] truncated_file)))"

text \<open>
  A recording of three streams in order of capture time: stream 0 at 0, 10, 20, 30; stream
  2 at 1, 11, 21, 31; the slow stream 3 at 18 and 50. The file is indexed, and the
  streams 0 and 3 are enabled; stream 2 is not.
\<close>

definition slow_stream_recording :: disk_read_base where
  "slow_stream_recording =
     projr (enable_stream 3 True
       (projr (enable_stream 0 True
         (index_next_samples 100
           (opened [(0, some_stream_info 0), (2, some_stream_info 2), (3, some_stream_info 3)]
              [image 0 0 0, image 2 1 200, image 0 10 400, image 2 11 600, image 3 18 800,
               image 0 20 1000, image 2 21 1200, image 0 30 1400, image 2 31 1600,
               image 3 50 1800]
              plain_file)))))"

text \<open>
  Two states between which the end-of-file callback was neither invoked nor replaced.
\<close>

definition callback_untouched :: "disk_read_base \<Rightarrow> disk_read_base \<Rightarrow> bool" where
  "callback_untouched s s' \<longleftrightarrow>
     eof_calls s' = eof_calls s \<and> m_eof_callback s' = m_eof_callback s"

text \<open>
  For the seek by time stamp: the descriptors of the whole file (those indexed so far and
  those the indexer has not reached yet), the test the scan applies to a descriptor, and
  the first position of a list whose element passes a test.
\<close>

definition all_descriptors :: "disk_read_base \<Rightarrow> sample list" where
  "all_descriptors s =
     m_samples_desc s @ (if m_is_index_complete s then [] else m_file_indexing s)"

definition at_or_after :: "nat \<Rightarrow> sample \<Rightarrow> bool" where
  "at_or_after ts x \<longleftrightarrow> info_type x = st_image \<and> to_double ts \<le> finfo_time_stamp x"

fun first_index :: "('a \<Rightarrow> bool) \<Rightarrow> 'a list \<Rightarrow> nat option" where
  "first_index P [] = None"
| "first_index P (x # xs) = (if P x then Some 0 else map_option Suc (first_index P xs))"

text \<open>
  For the read loop. Two data handles on the same file: they differ in the position at
  most. Two states between which nothing that steers the read loop has changed but the
  cursor, the queue and the clock: the descriptors of the file, the file, the pause and
  realtime flags and the time base are the same. The end of a play-through: the whole
  file is indexed, the cursor is past the last descriptor and the queue is empty. And the
  delay of the front of the queue, as the 32 bits that \<open>calc_sleep_time\<close> returns, read
  unsigned.
\<close>

definition same_content :: "file_handle \<Rightarrow> file_handle \<Rightarrow> bool" where
  "same_content f f' \<longleftrightarrow>
     can_seek f' = can_seek f \<and> chunk_at f' = chunk_at f \<and> bytes_at f' = bytes_at f"

definition same_playback :: "disk_read_base \<Rightarrow> disk_read_base \<Rightarrow> bool" where
  "same_playback s s' \<longleftrightarrow>
     all_descriptors s' = all_descriptors s
     \<and> same_content (m_file_data_read s) (m_file_data_read s')
     \<and> m_pause s' = m_pause s \<and> m_realtime s' = m_realtime s
     \<and> m_base_ts s' = m_base_ts s \<and> m_base_sys_time s' = m_base_sys_time s"

definition exhausted :: "disk_read_base \<Rightarrow> bool" where
  "exhausted s \<longleftrightarrow>
     m_is_index_complete s \<and> length (m_samples_desc s) \<le> m_samples_desc_index s
     \<and> m_prefetched_samples s = []"

text \<open>
  A recording that plays without an exception: no sample record has an undefined type,
  and the decode of every image sample returns, with a frame or with the null pointer,
  wherever the data handle stands.
\<close>

definition playable :: "collaborators \<Rightarrow> disk_read_base \<Rightarrow> bool" where
  "playable E s \<longleftrightarrow>
     (\<forall>x \<in> set (all_descriptors s).
        (\<forall>t. info_type x \<noteq> st_undefined t)
        \<and> (info_type x = st_image \<longrightarrow>
             (\<forall>u. same_content (m_file_data_read s) (m_file_data_read u) \<longrightarrow>
                  (\<exists>v u'. read_image_buffer E x u = Some (Inr v, u')))))"

definition front_delay :: "disk_read_base \<Rightarrow> nat" where
  "front_delay s =
     (case m_prefetched_samples s of
        [] \<Rightarrow> 0
      | front # rest \<Rightarrow> nat (calc_sleep_time s front mod 2 ^ 32))"

text \<open>
  A recording of two image samples of stream 1 whose frame time stamps (1 and 150) are not
  their capture times (100 and 200).
\<close>

definition two_clocks_recording :: disk_read_base where
  "two_clocks_recording =
     opened [(1, some_stream_info 1)]
       [(image 1 100 0)\<lparr>finfo_time_stamp := 1\<rparr>, (image 1 200 200)\<lparr>finfo_time_stamp := 150\<rparr>]
       plain_file"

text \<open>
  A recording of one image sample of stream 1 whose frame time stamp is 2^53.
\<close>

definition large_time_stamp_recording :: disk_read_base where
  "large_time_stamp_recording =
     opened [(1, some_stream_info 1)]
       [(image 1 100 0)\<lparr>finfo_time_stamp := 9007199254740992\<rparr>] plain_file"

text \<open>
  The scenario of two image streams, 0 and 3, both enabled: stream 0 captured at 0, 10,
  20, 30 and stream 3 at 0, 11, 19, 31, in order of capture time.
\<close>

definition scenario_recording :: disk_read_base where
  "scenario_recording =
     projr (enable_stream 3 True
       (projr (enable_stream 0 True
         (index_next_samples 100
           (opened [(0, some_stream_info 0), (3, some_stream_info 3)]
              [image 0 0 0, image 3 0 200, image 0 10 400, image 3 11 600, image 3 19 800,
               image 0 20 1000, image 0 30 1200, image 3 31 1400]
              plain_file)))))"

section \<open>Properties\<close>

text \<open>
  The equations of the loops are unfolded where a proof asks for them, not by default.
\<close>

declare bit_length.simps [simp del]
declare find_prev.simps [simp del]
declare find_next.simps [simp del]
declare index_until_image.simps [simp del]
declare time_stamp_scan.simps [simp del]
declare index_until_desc.simps [simp del]
declare index_all.simps [simp del]
declare notify_available_samples.simps [simp del]

subsection \<open>Buffering state\<close>

lemma streams_ready_iff:
  "streams_ready m \<longleftrightarrow> (\<forall>(k, asi) \<in> set m. 0 < m_prefetched_samples_count asi)"
  by (induction m rule: streams_ready.induct) auto

text \<open>
  C3, as the code has it. \<open>all_samples_bufferd\<close> is true exactly when indexing is
  complete, the cursor is past the last descriptor and the queue is not empty, or when
  every active stream has at least one ready sample (which is so when no stream is active)
  and the queue is longer than the threshold; the threshold is
  \<open>NUMBER_OF_REQUIRED_PREFETCHED_SAMPLES\<close> when motion tracking is enabled and 0 otherwise.
\<close>

theorem all_samples_bufferd_iff:
  "all_samples_bufferd E s \<longleftrightarrow>
     (m_is_index_complete s \<and> length (m_samples_desc s) \<le> m_samples_desc_index s
        \<and> m_prefetched_samples s \<noteq> [])
     \<or> ((\<forall>(k, asi) \<in> set (m_active_streams_info s). 0 < m_prefetched_samples_count asi)
        \<and> (if m_is_motion_tracking_enabled s then NUMBER_OF_REQUIRED_PREFETCHED_SAMPLES E else 0)
            < length (m_prefetched_samples s))"
  by (auto simp: all_samples_bufferd_def streams_ready_iff)

theorem all_samples_bufferd_iff_witness:
  "m_active_streams_info one_ready_state \<noteq> []
   \<and> \<not> (\<exists>(k, asi) \<in> set (m_active_streams_info one_ready_state). m_prefetched_samples_count asi = 0)
   \<and> \<not> m_is_motion_tracking_enabled one_ready_state
   \<and> all_samples_bufferd the_collaborators one_ready_state"
  using all_samples_bufferd_iff [of the_collaborators one_ready_state]
  by (simp add: one_ready_state_def opened_def)

text \<open>
  C3 as the spec states it fails: with indexing complete, the cursor at the end and a
  motion sample in the queue the function returns true, although an active stream has no
  ready sample.
\<close>

theorem all_samples_bufferd_counterexample:
  "all_samples_bufferd the_collaborators motion_only_state
   \<and> \<not> ((\<forall>(k, asi) \<in> set (m_active_streams_info motion_only_state).
              1 \<le> m_prefetched_samples_count asi)
         \<or> (m_active_streams_info motion_only_state = []
            \<and> NUMBER_OF_REQUIRED_PREFETCHED_SAMPLES the_collaborators
                < length (m_prefetched_samples motion_only_state)))"
  by (simp add: all_samples_bufferd_def motion_only_state_def opened_def)

subsection \<open>Prefetching a sample of an inactive stream\<close>

text \<open>
  C4, as the code has it. When the descriptor at the cursor is an image sample of a stream that is not active,
  \<open>prefetch_sample\<close> throws nothing and changes nothing but the cursor: the data handle
  and the decoder are untouched (no decode), the queue and every ready counter stay as
  they were. The cursor moves past the descriptor unless \<open>all_samples_bufferd\<close> makes
  the call a no-op.
\<close>

theorem prefetch_sample_inactive_stream:
  assumes "m_samples_desc_index s < length (m_samples_desc s)"
    and "info_type (m_samples_desc s ! m_samples_desc_index s) = st_image"
    and "find_key (m_active_streams_info s)
           (finfo_stream (m_samples_desc s ! m_samples_desc_index s)) = None"
  shows "prefetch_sample E s =
           Some (None, if all_samples_bufferd E s then s
                       else s\<lparr>m_samples_desc_index := m_samples_desc_index s + 1\<rparr>)"
  using assms by (simp add: prefetch_sample_def Let_def)

lemma stream_b_disabled_eq:
  "stream_b_disabled =
     (opened [(0, some_stream_info 0), (1, some_stream_info 1)] [] plain_file)
       \<lparr>m_samples_desc := [image 1 0 0, image 0 0 200],
        m_image_indices := [(0, [1]), (1, [0])],
        m_is_index_complete := True,
        m_active_streams_info :=
          [(0, \<lparr>m_stream_info = some_stream_info 0, m_image_indices_copy = [1],
                m_prefetched_samples_count = 0\<rparr>)]\<rparr>"
  by (simp add: stream_b_disabled_def enable_stream_def index_next_samples_def opened_def
      subscript_def image_def Let_def)

theorem prefetch_sample_inactive_stream_witness:
  "m_samples_desc_index stream_b_disabled < length (m_samples_desc stream_b_disabled)
   \<and> info_type (m_samples_desc stream_b_disabled ! m_samples_desc_index stream_b_disabled) = st_image
   \<and> find_key (m_active_streams_info stream_b_disabled)
        (finfo_stream (m_samples_desc stream_b_disabled ! m_samples_desc_index stream_b_disabled)) = None
   \<and> prefetch_sample the_collaborators stream_b_disabled =
        Some (None, stream_b_disabled\<lparr>m_samples_desc_index := 1\<rparr>)
   \<and> find_key (m_active_streams_info (stream_b_disabled\<lparr>m_samples_desc_index := 1\<rparr>)) 1 = None"
  using prefetch_sample_inactive_stream [of stream_b_disabled the_collaborators]
  by (simp add: stream_b_disabled_eq opened_def image_def all_samples_bufferd_def)

text \<open>
  C4 as the spec states it fails: the descriptor of an inactive stream is not consumed
  when \<open>all_samples_bufferd\<close> holds. After indexing, \<open>enable_stream(0, true)\<close> and one
  prefetch, the image descriptor of the inactive stream 1 is at the cursor, every active
  stream has a frame ready, and the next \<open>prefetch_sample\<close> returns at once: the cursor
  stays on the descriptor.
\<close>

theorem prefetch_sample_inactive_stream_counterexample:
  "m_samples_desc_index first_frame_buffered = 1
   \<and> m_samples_desc_index first_frame_buffered < length (m_samples_desc first_frame_buffered)
   \<and> m_samples_desc first_frame_buffered ! m_samples_desc_index first_frame_buffered = image 1 3 200
   \<and> info_type (image 1 3 200) = st_image
   \<and> find_key (m_active_streams_info first_frame_buffered) (finfo_stream (image 1 3 200)) = None
   \<and> all_samples_bufferd the_collaborators first_frame_buffered
   \<and> prefetch_sample the_collaborators first_frame_buffered = Some (None, first_frame_buffered)
   \<and> m_samples_desc_index (snd (the (prefetch_sample the_collaborators first_frame_buffered))) = 1"
proof -
  have s: "first_frame_buffered =
     (opened [(0, some_stream_info 0), (1, some_stream_info 1)] [] plain_file)
       \<lparr>m_samples_desc := [image 0 0 0, image 1 3 200],
        m_image_indices := [(0, [0]), (1, [1])],
        m_is_index_complete := True,
        m_samples_desc_index := 1,
        m_active_streams_info :=
          [(0, \<lparr>m_stream_info = some_stream_info 0, m_image_indices_copy = [0],
                m_prefetched_samples_count = 1\<rparr>)],
        m_prefetched_samples := [(image 0 0 0)\<lparr>data := Some 100\<rparr>],
        m_file_data_read := plain_file\<lparr>position := 124\<rparr>,
        m_decoder := Some [(0, none)],
        m_encoded_data := 1228800\<rparr>"
    by (simp add: first_frame_buffered_def prefetch_sample_def read_image_buffer_def
        read_chunks.simps init_decoder_def set_position_begin_def set_position_current_def
        read_chunk_def read_bytes_def sizeof_chunk_def all_samples_bufferd_def
        enable_stream_def index_next_samples_def opened_def subscript_def bump_def
        increment_def some_stream_info_def image_def plain_file_def the_collaborators_def
        Let_def)
  show ?thesis
    unfolding s
    by (simp add: prefetch_sample_def all_samples_bufferd_def opened_def image_def)
qed

subsection \<open>Pacing\<close>

lemma to_int32_in_range: "- (2 ^ 31) \<le> d \<Longrightarrow> d < 2 ^ 31 \<Longrightarrow> to_int32 (d mod 2 ^ 64) = d"
proof -
  assume a: "- (2 ^ 31) \<le> d" "d < 2 ^ 31"
  have "(d mod 2 ^ 64 + 2 ^ 31) mod 2 ^ 32 = (d + 2 ^ 31) mod (2 ^ 32 :: int)"
  proof -
    have "(2 ^ 32 :: int) dvd 2 ^ 64" by simp
    then have "(d mod 2 ^ 64) mod 2 ^ 32 = d mod (2 ^ 32 :: int)"
      by (rule mod_mod_cancel)
    then show ?thesis by (metis mod_add_left_eq)
  qed
  also have "\<dots> = d + 2 ^ 31" using a by simp
  finally show ?thesis by (simp add: to_int32_def)
qed

lemma notify_not_realtime:
  "\<not> m_pause s \<Longrightarrow> \<not> m_realtime s \<Longrightarrow>
     delivered (notify_available_samples s) = delivered s @ m_prefetched_samples s
     \<and> m_prefetched_samples (notify_available_samples s) = []"
proof (induction s rule: notify_available_samples.induct)
  case (1 s)
  show ?case
  proof (cases "m_prefetched_samples s")
    case Nil
    then show ?thesis using 1(2) by (subst (1 2) notify_available_samples.simps) simp
  next
    case (Cons front rest)
    then show ?thesis
      using 1 by (subst (1 2) notify_available_samples.simps) (simp add: Let_def)
  qed
qed

lemma notify_delivered_prefix:
  "\<exists>xs. delivered (notify_available_samples s) = delivered s @ xs"
proof (induction s rule: notify_available_samples.induct)
  case (1 s)
  show ?case
  proof (cases "\<not> m_pause s \<and> m_prefetched_samples s \<noteq> []
                \<and> \<not> (0 < calc_sleep_time s (hd (m_prefetched_samples s)) \<and> m_realtime s)")
    case False
    then have "notify_available_samples s = s"
      by (subst notify_available_samples.simps) (auto split: list.splits)
    then show ?thesis by simp
  next
    case True
    then obtain front rest where q: "m_prefetched_samples s = front # rest"
      by (cases "m_prefetched_samples s") auto
    define s1 where "s1 = (if info_type front = st_image
                           then s\<lparr>m_active_streams_info :=
                                    bump decrement (m_active_streams_info s) (finfo_stream front)\<rparr>
                           else s)"
    define s2 where "s2 = s1\<lparr>delivered := delivered s1 @ [front]\<rparr>"
    have "\<exists>xs. delivered (notify_available_samples (s2\<lparr>m_prefetched_samples := rest\<rparr>))
            = delivered (s2\<lparr>m_prefetched_samples := rest\<rparr>) @ xs"
      using True q by (intro 1 [OF _ q _ s1_def s2_def]) auto
    then obtain xs where
      "delivered (notify_available_samples (s2\<lparr>m_prefetched_samples := rest\<rparr>))
         = (delivered s @ [front]) @ xs"
      by (auto simp: s2_def s1_def)
    moreover have "notify_available_samples s
                     = notify_available_samples (s2\<lparr>m_prefetched_samples := rest\<rparr>)"
      using True q by (subst notify_available_samples.simps) (auto simp: Let_def s1_def s2_def)
    ultimately show ?thesis by simp
  qed
qed

lemma notify_due:
  assumes "\<not> m_pause s" and "m_prefetched_samples s = front # rest"
    and "\<not> (0 < calc_sleep_time s front \<and> m_realtime s)"
  shows "\<exists>later. delivered (notify_available_samples s) = delivered s @ front # later"
proof -
  define s1 where "s1 = (if info_type front = st_image
                         then s\<lparr>m_active_streams_info :=
                                  bump decrement (m_active_streams_info s) (finfo_stream front)\<rparr>
                         else s)"
  define s2 where "s2 = s1\<lparr>delivered := delivered s1 @ [front], m_prefetched_samples := rest\<rparr>"
  have "notify_available_samples s = notify_available_samples s2"
    using assms by (subst notify_available_samples.simps) (auto simp: Let_def s1_def s2_def)
  moreover obtain xs where "delivered (notify_available_samples s2) = delivered s2 @ xs"
    using notify_delivered_prefix by blast
  moreover have "delivered s2 = delivered s @ [front]"
    by (simp add: s2_def s1_def)
  ultimately show ?thesis by simp
qed

lemma notify_not_due:
  assumes "\<not> m_pause s" and "m_prefetched_samples s = front # rest"
    and "0 < calc_sleep_time s front" and "m_realtime s"
  shows "notify_available_samples s = s"
  using assms by (subst notify_available_samples.simps) simp

text \<open>
  C5, as the code has it. The delay is \<open>capture_time - m_base_ts - elapsed\<close> whenever
  that difference is in the range of a signed 32-bit integer, to which the code narrows
  it. In realtime mode a front sample with a positive delay is held back; a front sample
  whose delay is at most 0 is delivered next; and when realtime mode is off the whole
  queue is delivered, in order, whatever the delays are.
\<close>

theorem pacing_delay:
  "(- (2 ^ 31) \<le> int (info_capture_time smp) - int (m_base_ts s) - int (query_run_time s)
      \<and> int (info_capture_time smp) - int (m_base_ts s) - int (query_run_time s) < 2 ^ 31
      \<longrightarrow> calc_sleep_time s smp
            = int (info_capture_time smp) - int (m_base_ts s) - int (query_run_time s))
   \<and> (\<not> m_pause s \<and> m_prefetched_samples s = front # rest \<and> m_realtime s
        \<and> 0 < calc_sleep_time s front
      \<longrightarrow> notify_available_samples s = s)
   \<and> (\<not> m_pause s \<and> m_prefetched_samples s = front # rest \<and> calc_sleep_time s front \<le> 0
      \<longrightarrow> (\<exists>later. delivered (notify_available_samples s) = delivered s @ front # later))
   \<and> (\<not> m_pause s \<and> \<not> m_realtime s
      \<longrightarrow> delivered (notify_available_samples s) = delivered s @ m_prefetched_samples s
          \<and> m_prefetched_samples (notify_available_samples s) = [])"
proof (intro conjI impI)
  assume "- (2 ^ 31) \<le> int (info_capture_time smp) - int (m_base_ts s) - int (query_run_time s)
      \<and> int (info_capture_time smp) - int (m_base_ts s) - int (query_run_time s) < 2 ^ 31"
  then show "calc_sleep_time s smp
      = int (info_capture_time smp) - int (m_base_ts s) - int (query_run_time s)"
    unfolding calc_sleep_time_def Let_def by (intro to_int32_in_range) blast+
next
  assume "\<not> m_pause s \<and> m_prefetched_samples s = front # rest \<and> m_realtime s
        \<and> 0 < calc_sleep_time s front"
  then show "notify_available_samples s = s"
    by (simp add: notify_not_due)
next
  assume "\<not> m_pause s \<and> m_prefetched_samples s = front # rest \<and> calc_sleep_time s front \<le> 0"
  then show "\<exists>later. delivered (notify_available_samples s) = delivered s @ front # later"
    by (intro notify_due) auto
next
  assume a: "\<not> m_pause s \<and> \<not> m_realtime s"
  then show "delivered (notify_available_samples s) = delivered s @ m_prefetched_samples s"
    by (simp add: notify_not_realtime)
  from a show "m_prefetched_samples (notify_available_samples s) = []"
    by (simp add: notify_not_realtime)
qed

theorem pacing_delay_witness:
  "calc_sleep_time two_queued_state (motion 500 0) = 500
   \<and> \<not> m_pause two_queued_state \<and> \<not> m_realtime two_queued_state
   \<and> m_prefetched_samples two_queued_state = [motion 500 0, motion 90000 100]
   \<and> delivered (notify_available_samples two_queued_state) = [motion 500 0, motion 90000 100]
   \<and> m_prefetched_samples (notify_available_samples two_queued_state) = []"
  using pacing_delay [of "motion 500 0" two_queued_state "motion 500 0" "[motion 90000 100]"]
  by (simp add: two_queued_state_def opened_def motion_def query_run_time_def)

text \<open>
  C5 as the spec states it fails: a sample 2^31 ahead of the time base gets the delay
  -2^31, not the difference.
\<close>

theorem pacing_delay_counterexample:
  "calc_sleep_time far_sample_state (image 1 2147483648 0) = - 2147483648
   \<and> int (info_capture_time (image 1 2147483648 0)) - int (m_base_ts far_sample_state)
       - int (query_run_time far_sample_state) = 2147483648"
  by (simp add: calc_sleep_time_def far_sample_state_def opened_def image_def
      query_run_time_def to_int32_def)

subsection \<open>Resume\<close>

text \<open>
  C7, as the code has it. \<open>resume\<close> resets the time base (the wall-clock instant and
  the base time stamp) in every case. When \<open>m_thread\<close> is joinable, that is, a read
  loop was started and \<open>pause\<close> has not joined it since, \<open>resume\<close> throws
  "resume while streaming is not allowed" and starts no read loop; otherwise it starts
  exactly one.
\<close>

theorem resume_effect:
  "m_base_sys_time (snd (resume s)) = clock s
   \<and> m_base_ts (snd (resume s)) =
       (if 0 < m_samples_desc_index s then
          if m_prefetched_samples s \<noteq> [] then info_capture_time (hd (m_prefetched_samples s))
          else if m_samples_desc_index s < length (m_samples_desc s)
               then info_capture_time (m_samples_desc s ! m_samples_desc_index s) else 0
        else 0)
   \<and> (joinable (m_thread s) \<longrightarrow>
        fst (resume s) = Some Resume_while_streaming
        \<and> threads_started (snd (resume s)) = threads_started s
        \<and> m_thread (snd (resume s)) = m_thread s)
   \<and> (\<not> joinable (m_thread s) \<longrightarrow>
        fst (resume s) = None
        \<and> threads_started (snd (resume s)) = threads_started s + 1
        \<and> m_thread (snd (resume s)) = Running)"
  by (simp add: resume_def update_time_base_def Let_def)

theorem resume_effect_witness:
  "\<not> joinable (m_thread one_motion_recording)
   \<and> fst (resume one_motion_recording) = None
   \<and> threads_started (snd (resume one_motion_recording)) = 1
   \<and> joinable (m_thread (snd (resume one_motion_recording)))
   \<and> fst (resume (snd (resume one_motion_recording))) = Some Resume_while_streaming
   \<and> threads_started (snd (resume (snd (resume one_motion_recording)))) = 1"
  using resume_effect [of one_motion_recording] resume_effect [of "snd (resume one_motion_recording)"]
  by (simp add: one_motion_recording_def opened_def joinable_def)

lemma play_one_motion:
  "read_thread the_collaborators (snd (resume one_motion_recording)) = Some (None, True, played_to_end)"
  by (simp add: read_thread_def read_loop.simps elapse_def read_next_sample_def prefetch_sample_def
      all_samples_bufferd_def notify_available_samples.simps index_until_desc.simps
      index_next_samples_def
      resume_def update_time_base_def one_motion_recording_def played_to_end_def opened_def
      the_collaborators_def motion_def joinable_def Let_def)

text \<open>
  C7 as the spec states it fails: after a play-through to the end of the file the read
  loop has returned, no reader is running, and \<open>resume\<close> still throws and starts
  nothing, because the finished thread is joinable until \<open>pause\<close> joins it.
\<close>

theorem resume_counterexample:
  "read_thread the_collaborators (snd (resume one_motion_recording)) = Some (None, True, played_to_end)
   \<and> m_thread played_to_end = Finished
   \<and> fst (resume played_to_end) = Some Resume_while_streaming
   \<and> threads_started (snd (resume played_to_end)) = threads_started played_to_end"
  by (simp add: play_one_motion)
     (simp add: resume_def update_time_base_def played_to_end_def one_motion_recording_def
       opened_def joinable_def Let_def)

subsection \<open>Number of frames\<close>

lemma find_key_put_key: "find_key (put_key m k v) k' = (if k' = k then Some v else find_key m k')"
  by (induction m) auto

lemma subscript_again: "fst (subscript d (snd (subscript d m k)) k) = fst (subscript d m k)"
  by (simp add: subscript_def find_key_put_key split: option.splits)

lemma index_all_complete: "m_is_index_complete (index_all s)"
  by (induction s rule: index_all.induct) (subst index_all.simps, simp)

lemma index_all_descs:
  "\<not> m_is_index_complete s \<Longrightarrow>
     m_samples_desc (index_all s) = m_samples_desc s @ m_file_indexing s
     \<and> m_streams_infos (index_all s) = m_streams_infos s"
proof (induction s rule: index_all.induct)
  case (1 s)
  let ?s1 = "index_next_samples 4294967295 s"
  have step: "index_all s = index_all ?s1"
    using 1(2) by (subst index_all.simps) simp
  show ?case
  proof (cases "m_is_index_complete ?s1")
    case True
    then have "index_all ?s1 = ?s1" by (subst index_all.simps) simp
    moreover have "length (m_file_indexing s) < 4294967295"
      using True 1(2) by (simp add: index_next_samples_def Let_def)
    ultimately show ?thesis
      using step 1(2) by (simp add: index_next_samples_def Let_def)
  next
    case False
    from 1(1) [OF 1(2) False] show ?thesis
      using step 1(2) by (simp add: index_next_samples_def Let_def)
  qed
qed

text \<open>
  C10. When the frame count of the stream's header info is not zero,
  \<open>query_number_of_frames\<close> returns it and leaves the engine as it was: nothing is
  indexed. When it is zero (as it is for a stream the header does not declare), indexing
  runs to completion, so that every record of the file has its descriptor, and the result
  is the size of the stream's image index, as a 32-bit unsigned integer.
\<close>

theorem query_number_of_frames_result:
  "(0 < nframes (fst (subscript default_stream_info (m_streams_infos s) strm)) \<longrightarrow>
      query_number_of_frames strm s =
        (nframes (fst (subscript default_stream_info (m_streams_infos s) strm)), s))
   \<and> (nframes (fst (subscript default_stream_info (m_streams_infos s) strm)) = 0 \<longrightarrow>
        m_is_index_complete (snd (query_number_of_frames strm s))
        \<and> (\<not> m_is_index_complete s \<longrightarrow>
             m_samples_desc (snd (query_number_of_frames strm s))
               = m_samples_desc s @ m_file_indexing s)
        \<and> fst (query_number_of_frames strm s)
            = length (fst (subscript [] (m_image_indices (snd (query_number_of_frames strm s))) strm))
              mod 2 ^ 32)"
proof (intro conjI impI)
  assume pos: "0 < nframes (fst (subscript default_stream_info (m_streams_infos s) strm))"
  then have "snd (subscript default_stream_info (m_streams_infos s) strm) = m_streams_infos s"
    by (auto simp: subscript_def default_stream_info_def split: option.splits)
  then show "query_number_of_frames strm s =
        (nframes (fst (subscript default_stream_info (m_streams_infos s) strm)), s)"
    using pos by (simp add: query_number_of_frames_def Let_def split_beta)
next
  assume "nframes (fst (subscript default_stream_info (m_streams_infos s) strm)) = 0"
  then show "m_is_index_complete (snd (query_number_of_frames strm s))"
    by (simp add: query_number_of_frames_def Let_def split_beta index_all_complete)
next
  assume "nframes (fst (subscript default_stream_info (m_streams_infos s) strm)) = 0"
    and "\<not> m_is_index_complete s"
  then show "m_samples_desc (snd (query_number_of_frames strm s))
               = m_samples_desc s @ m_file_indexing s"
    by (simp add: query_number_of_frames_def Let_def split_beta index_all_descs)
next
  assume "nframes (fst (subscript default_stream_info (m_streams_infos s) strm)) = 0"
  then show "fst (query_number_of_frames strm s)
            = length (fst (subscript [] (m_image_indices (snd (query_number_of_frames strm s))) strm))
              mod 2 ^ 32"
    by (simp add: query_number_of_frames_def Let_def split_beta subscript_again)
qed

theorem query_number_of_frames_result_witness:
  "nframes (fst (subscript default_stream_info (m_streams_infos counted_recording) 1)) = 7
   \<and> query_number_of_frames 1 counted_recording = (7, counted_recording)
   \<and> nframes (fst (subscript default_stream_info (m_streams_infos counted_recording) 0)) = 0
   \<and> \<not> m_is_index_complete counted_recording
   \<and> fst (query_number_of_frames 0 counted_recording) = 2
   \<and> m_samples_desc (snd (query_number_of_frames 0 counted_recording))
       = [image 0 0 0, image 1 1 200, image 0 10 400]"
  using query_number_of_frames_result [of counted_recording 1]
    query_number_of_frames_result [of counted_recording 0]
  by (simp add: query_number_of_frames_def index_all.simps index_next_samples_def
      counted_recording_def opened_def image_def subscript_def some_stream_info_def Let_def)

subsection \<open>Active streams and the header\<close>

lemma keys_Nil: "keys [] = {}"
  by (simp add: keys_def)

lemma keys_Cons: "keys ((k, v) # m) = insert k (keys m)"
  by (simp add: keys_def)

lemma keys_put_key: "keys (put_key m k v) = insert k (keys m)"
  by (induction m k v rule: put_key.induct) (auto simp: keys_Nil keys_Cons)

lemma keys_erase_key: "keys (erase_key m k) = keys m - {k}"
  by (induction m k rule: erase_key.induct) (auto simp: keys_Nil keys_Cons)

lemma find_key_None: "find_key m k = None \<longleftrightarrow> k \<notin> keys m"
  by (induction m k rule: find_key.induct) (auto simp: keys_Nil keys_Cons)

text \<open>
  \<open>enable_stream\<close> refuses a stream that \<open>m_streams_infos\<close> does not hold, and keeps
  the active streams among the keys of \<open>m_streams_infos\<close>.
\<close>

lemma enable_stream_undeclared:
  "strm \<notin> keys (m_streams_infos s) \<Longrightarrow> enable_stream strm state s = Inl Unsupported_stream"
  by (simp add: enable_stream_def find_key_None)

lemma enable_stream_subset:
  assumes "enable_stream strm state s = Inr s'"
    and "keys (m_active_streams_info s) \<subseteq> keys (m_streams_infos s)"
  shows "keys (m_active_streams_info s') \<subseteq> keys (m_streams_infos s')"
  using assms
  by (auto simp: enable_stream_def Let_def split_beta subscript_def find_key_None keys_put_key
      keys_erase_key split: if_splits option.splits)

text \<open>
  C9 fails on the code. \<open>query_number_of_frames\<close> reads \<open>m_streams_infos[stream]\<close>,
  which inserts an entry for a stream the header does not declare. For stream 5, which the
  header of the recording does not declare: \<open>enable_stream\<close> fails at first; after
  \<open>query_number_of_frames\<close> for stream 5 (which returns 0) it succeeds, and stream 5 is
  active.
\<close>

theorem enable_stream_after_query:
  "find_key (m_streams_infos two_stream_recording) 5 = None
   \<and> enable_stream 5 True two_stream_recording = Inl Unsupported_stream
   \<and> fst (query_number_of_frames 5 two_stream_recording) = 0
   \<and> \<not> isl (enable_stream 5 True (snd (query_number_of_frames 5 two_stream_recording)))
   \<and> find_key (m_active_streams_info
        (projr (enable_stream 5 True (snd (query_number_of_frames 5 two_stream_recording))))) 5
       \<noteq> None"
  by (simp add: enable_stream_def query_number_of_frames_def index_all.simps
      index_next_samples_def two_stream_recording_def opened_def image_def subscript_def
      some_stream_info_def default_stream_info_def Let_def)

subsection \<open>Failures of the data handle during a decode\<close>

text \<open>A failing seek to the sample's offset yields the null pointer, and no exception.\<close>

lemma read_image_buffer_seek_fails:
  "\<not> can_seek (m_file_data_read s) (info_offset frame) \<Longrightarrow>
     map_option fst (read_image_buffer E frame s) = Some (Inr None)"
  by (simp add: read_image_buffer_def set_position_begin_def Let_def)

text \<open>
  C8 fails on the code. The status of \<open>read_bytes\<close> is not looked at: when the read of
  the payload of an uncompressed frame delivers no byte, \<open>read_image_buffer\<close> still
  returns a frame, with a buffer of the 100 bytes the chunk announces.
\<close>

theorem read_image_buffer_failed_read:
  "fst (read_bytes 100 (m_file_data_read truncated_recording)) = 0
   \<and> map_option fst (read_image_buffer the_collaborators (image 1 5 0) truncated_recording)
       = Some (Inr (Some ((image 1 5 0)\<lparr>data := Some 100\<rparr>)))"
  by (simp add: read_image_buffer_def read_chunks.simps read_chunk_def read_bytes_def
      set_position_begin_def set_position_current_def init_decoder_def
      truncated_recording_def truncated_file_def plain_file_def enable_stream_def
      index_next_samples_def opened_def image_def subscript_def the_collaborators_def
      some_stream_info_def Let_def)

text \<open>
  A sample-data chunk that is smaller than the pitch table: the size of the buffer wraps
  around to 2^64 - 8, and the allocation throws.
\<close>

lemma read_image_buffer_short_chunk:
  "map_option fst
     (read_image_buffer the_collaborators (image 1 5 0)
        (truncated_recording
           \<lparr>m_file_data_read :=
              plain_file\<lparr>chunk_at :=
                (\<lambda>off. Some \<lparr>chunk_ident = chunk_sample_data, chunk_size = 8\<rparr>)\<rparr>\<rparr>))
     = Some (Inl Bad_alloc)"
  by (simp add: read_image_buffer_def read_chunks.simps read_chunk_def read_bytes_def
      set_position_begin_def set_position_current_def init_decoder_def
      truncated_recording_def truncated_file_def plain_file_def enable_stream_def
      index_next_samples_def opened_def image_def subscript_def the_collaborators_def
      some_stream_info_def Let_def)

subsection \<open>Nearest frames\<close>

text \<open>
  When both loops have stored a neighbour for the stream, the choice is the nearer one in
  capture time, and the preceding one on a tie.
\<close>

lemma select_sample_nearest:
  assumes "find_key prev_index k = Some p" and "find_key next_index k = Some n" and "k \<noteq> strm"
  shows "select_sample descs prev_index next_index sample_index strm k =
           (if \<bar>int (info_capture_time (descs ! sample_index)) - int (info_capture_time (descs ! p))\<bar>
               > \<bar>int (info_capture_time (descs ! sample_index)) - int (info_capture_time (descs ! n))\<bar>
            then descs ! n else descs ! p)"
  using assms by (auto simp: select_sample_def subscript_def Let_def)

text \<open>
  In the scenario, seeking to the sample of stream 0 at 20 (descriptor 5), both loops find
  the neighbours of stream 3, at 19 and at 31, and the one at 19 is chosen.
\<close>

lemma scenario_nearest:
  "find_prev (m_samples_desc scenario_recording) (length (m_active_streams_info scenario_recording)) 5 []
     = [(0, 2), (3, 4)]
   \<and> find_next the_collaborators scenario_recording 5 [] = Some (scenario_recording, [(0, 6), (3, 7)])
   \<and> select_sample (m_samples_desc scenario_recording) [(0, 2), (3, 4)] [(0, 6), (3, 7)] 5 0 3
       = image 3 19 800"
  by (simp add: find_prev.simps find_next.simps select_sample_def scenario_recording_def
      enable_stream_def index_next_samples_def opened_def subscript_def image_def Let_def)

lemma image_fields:
  "info_type (image k t off) = st_image" "info_capture_time (image k t off) = t"
  "info_offset (image k t off) = off" "finfo_stream (image k t off) = k"
  "finfo_ctype (image k t off) = none"
  by (simp_all add: image_def)

lemma slow_stream_recording_eq:
  "slow_stream_recording =
     (opened [(0, some_stream_info 0), (2, some_stream_info 2), (3, some_stream_info 3)] [] plain_file)
       \<lparr>m_samples_desc :=
           [image 0 0 0, image 2 1 200, image 0 10 400, image 2 11 600, image 3 18 800,
            image 0 20 1000, image 2 21 1200, image 0 30 1400, image 2 31 1600,
            image 3 50 1800],
        m_image_indices := [(0, [0, 2, 5, 7]), (2, [1, 3, 6, 8]), (3, [4, 9])],
        m_is_index_complete := True,
        m_active_streams_info :=
          [(0, \<lparr>m_stream_info = some_stream_info 0, m_image_indices_copy = [0, 2, 5, 7],
                m_prefetched_samples_count = 0\<rparr>),
           (3, \<lparr>m_stream_info = some_stream_info 3, m_image_indices_copy = [4, 9],
                m_prefetched_samples_count = 0\<rparr>)]\<rparr>"
  by (simp add: slow_stream_recording_def enable_stream_def index_next_samples_def opened_def
      subscript_def image_def Let_def)

lemma slow_prev:
  "find_prev (m_samples_desc slow_stream_recording) 2 7 [] = [(0, 5), (2, 6)]"
  by (simp add: find_prev.simps slow_stream_recording_eq opened_def image_def)

lemma slow_next:
  "find_next the_collaborators slow_stream_recording 7 [] = Some (slow_stream_recording, [(2, 8), (3, 9)])"
  by (simp add: find_next.simps slow_stream_recording_eq opened_def image_def)

lemma slow_fields:
  "m_samples_desc slow_stream_recording =
     [image 0 0 0, image 2 1 200, image 0 10 400, image 2 11 600, image 3 18 800,
      image 0 20 1000, image 2 21 1200, image 0 30 1400, image 2 31 1600, image 3 50 1800]"
  "map fst (m_active_streams_info slow_stream_recording) = [0, 3]"
  "length (m_active_streams_info slow_stream_recording) = 2"
  "find_key (m_active_streams_info slow_stream_recording) 0 \<noteq> None"
  "m_is_index_complete slow_stream_recording"
  "m_file_data_read slow_stream_recording = plain_file"
  by (simp_all add: slow_stream_recording_eq opened_def)

lemma plain_read:
  assumes "m_file_data_read s = plain_file\<lparr>position := p\<rparr>" and "finfo_ctype frame = none"
  shows "read_image_buffer the_collaborators frame s =
           Some (Inr (Some (frame\<lparr>data := Some 100\<rparr>)),
                 (if m_decoder s = None then init_decoder s else s)
                   \<lparr>m_file_data_read := plain_file\<lparr>position := info_offset frame + 124\<rparr>\<rparr>)"
  using assms
  by (simp add: read_image_buffer_def read_chunks.simps read_chunk_def read_bytes_def
      set_position_begin_def set_position_current_def sizeof_chunk_def init_decoder_def
      plain_file_def the_collaborators_def Let_def)

lemma slow_select:
  "select_sample (m_samples_desc slow_stream_recording) [(0, 5), (2, 6)] [(2, 8), (3, 9)] 7 0 0
     = image 0 30 1400"
  "select_sample (m_samples_desc slow_stream_recording) [(0, 5), (2, 6)] [(2, 8), (3, 9)] 7 0 3
     = image 3 50 1800"
  by (simp_all add: slow_fields select_sample_def subscript_def image_def Let_def)

text \<open>
  C1 fails on the code. The backward loop counts the streams it has met, active or not,
  and stops when their number reaches the number of active streams. Seeking to the sample
  of stream 0 at 30 (descriptor 7), it meets the streams 2 and 0 and stops before the
  sample of stream 3 at 18 (descriptor 4); \<open>prev_index[3]\<close> is then 0, the sample of
  stream 0 at 0, at distance 30. The following sample of stream 3, at 50 (descriptor 9), is
  at distance 20 and is selected, although the preceding one is at distance 12.
\<close>

theorem find_nearest_frames_misses_previous:
  "m_samples_desc slow_stream_recording ! 7 = image 0 30 1400
   \<and> m_samples_desc slow_stream_recording ! 4 = image 3 18 800
   \<and> m_samples_desc slow_stream_recording ! 9 = image 3 50 1800
   \<and> map fst (m_active_streams_info slow_stream_recording) = [0, 3]
   \<and> map_option fst (find_nearest_frames the_collaborators 7 0 slow_stream_recording)
       = Some (Inr [(0, (image 0 30 1400)\<lparr>data := Some 100\<rparr>),
                    (3, (image 3 50 1800)\<lparr>data := Some 100\<rparr>)])"
proof -
  let ?S = slow_stream_recording
  let ?E = the_collaborators
  define S1 where "S1 = (init_decoder ?S)\<lparr>m_file_data_read := plain_file\<lparr>position := 1524\<rparr>\<rparr>"
  define S2 where "S2 = S1\<lparr>m_file_data_read := plain_file\<lparr>position := 1924\<rparr>\<rparr>"
  define S3 where "S3 = S2\<lparr>m_samples_desc_index := 7, m_prefetched_samples := []\<rparr>"
  have dec0: "m_decoder ?S = None"
    by (simp add: slow_stream_recording_eq opened_def)
  have file0: "m_file_data_read ?S = plain_file\<lparr>position := 0\<rparr>"
    by (simp add: slow_fields plain_file_def)
  have r1: "read_image_buffer ?E (image 0 30 1400) ?S
              = Some (Inr (Some ((image 0 30 1400)\<lparr>data := Some 100\<rparr>)), S1)"
    using plain_read [OF file0, of "image 0 30 1400"] by (simp add: dec0 S1_def image_def)
  have r2: "read_image_buffer ?E (image 3 50 1800) S1
              = Some (Inr (Some ((image 3 50 1800)\<lparr>data := Some 100\<rparr>)), S2)"
    using plain_read [of S1 1524 "image 3 50 1800"]
    by (simp add: S1_def S2_def init_decoder_def image_def)
  have descs1: "m_samples_desc S1 = m_samples_desc ?S"
    by (simp add: S1_def init_decoder_def)
  have dec: "decode_streams ?E (map fst (m_active_streams_info ?S)) [(0, 5), (2, 6)]
               [(2, 8), (3, 9)] 7 0 [] ?S
             = Some (Inr [(0, (image 0 30 1400)\<lparr>data := Some 100\<rparr>),
                          (3, (image 3 50 1800)\<lparr>data := Some 100\<rparr>)], S2)"
    by (simp add: slow_fields(2) slow_select descs1 r1 r2 Let_def) (simp add: image_def)
  have r3: "read_image_buffer ?E (image 0 30 1400) (S3\<lparr>m_samples_desc_index := 8\<rparr>)
              = Some (Inr (Some ((image 0 30 1400)\<lparr>data := Some 100\<rparr>)),
                      S3\<lparr>m_samples_desc_index := 8,
                         m_file_data_read := plain_file\<lparr>position := 1524\<rparr>\<rparr>)"
    using plain_read [of "S3\<lparr>m_samples_desc_index := 8\<rparr>" 1924 "image 0 30 1400"]
    by (simp add: S3_def S2_def S1_def init_decoder_def image_def)
  have fields3: "m_samples_desc S3 = m_samples_desc ?S" "m_samples_desc_index S3 = 7"
    "m_prefetched_samples S3 = []" "m_active_streams_info S3 = m_active_streams_info ?S"
    "m_is_index_complete S3"
    by (simp_all add: S3_def S2_def S1_def init_decoder_def slow_fields)
  have pf: "\<exists>s. prefetch_sample ?E S3 = Some (None, s)"
    by (simp add: prefetch_sample_def all_samples_bufferd_def fields3 slow_fields image_fields
        r3 Let_def)
  have "map_option fst (find_nearest_frames ?E 7 0 ?S)
       = Some (Inr [(0, (image 0 30 1400)\<lparr>data := Some 100\<rparr>),
                    (3, (image 3 50 1800)\<lparr>data := Some 100\<rparr>)])"
    using pf
    by (auto simp: find_nearest_frames_def slow_fields(3) slow_prev slow_next dec S3_def Let_def)
  then show ?thesis
    by (simp add: slow_fields)
qed

subsection \<open>The end-of-file callback\<close>

text \<open>
  Nothing but the read loop touches the end-of-file callback: the steps of
  \<open>read_next_sample\<close> and of the seeks leave it and the count of its invocations alone.
\<close>

lemma cu_refl: "callback_untouched s s"
  by (simp add: callback_untouched_def)

lemma cu_trans:
  "callback_untouched a b \<Longrightarrow> callback_untouched b c \<Longrightarrow> callback_untouched a c"
  by (simp add: callback_untouched_def)

lemma cu_index_next_samples: "callback_untouched s (index_next_samples n s)"
  by (simp add: callback_untouched_def index_next_samples_def Let_def)

lemma cu_notify: "callback_untouched s (notify_available_samples s)"
proof (induction s rule: notify_available_samples.induct)
  case (1 s)
  show ?case
  proof (cases "\<not> m_pause s \<and> m_prefetched_samples s \<noteq> []
                \<and> \<not> (0 < calc_sleep_time s (hd (m_prefetched_samples s)) \<and> m_realtime s)")
    case False
    then have "notify_available_samples s = s"
      by (subst notify_available_samples.simps) (auto split: list.splits)
    then show ?thesis by (simp add: cu_refl)
  next
    case True
    then obtain front rest where q: "m_prefetched_samples s = front # rest"
      by (cases "m_prefetched_samples s") auto
    define s1 where "s1 = (if info_type front = st_image
                           then s\<lparr>m_active_streams_info :=
                                    bump decrement (m_active_streams_info s) (finfo_stream front)\<rparr>
                           else s)"
    define s2 where "s2 = s1\<lparr>delivered := delivered s1 @ [front]\<rparr>"
    have "callback_untouched (s2\<lparr>m_prefetched_samples := rest\<rparr>)
            (notify_available_samples (s2\<lparr>m_prefetched_samples := rest\<rparr>))"
      using True q by (intro 1 [OF _ q _ s1_def s2_def]) auto
    moreover have "notify_available_samples s
                     = notify_available_samples (s2\<lparr>m_prefetched_samples := rest\<rparr>)"
      using True q by (subst notify_available_samples.simps) (auto simp: Let_def s1_def s2_def)
    ultimately show ?thesis
      by (simp add: callback_untouched_def s2_def s1_def)
  qed
qed

lemma cu_index_until_desc:
  "index_until_desc E s = Some s' \<Longrightarrow> callback_untouched s s'"
proof (induction E s rule: index_until_desc.induct)
  case (1 E s)
  show ?case
  proof (cases "length (m_samples_desc s) \<le> m_samples_desc_index s \<and> \<not> m_is_index_complete s")
    case False
    then show ?thesis using 1(2) by (subst (asm) index_until_desc.simps) (auto simp: cu_refl)
  next
    case True
    then have k: "NUMBER_OF_SAMPLES_TO_INDEX E \<noteq> 0"
      and r: "index_until_desc E (index_next_samples (NUMBER_OF_SAMPLES_TO_INDEX E) s) = Some s'"
      using 1(2) by (subst (asm) index_until_desc.simps, simp split: if_splits)+
    from 1(1) [OF True k r] show ?thesis
      using cu_index_next_samples cu_trans by blast
  qed
qed

lemma cu_read_chunks:
  assumes "read_chunks E frame chunk s = Some y"
  shows "callback_untouched s (snd y)"
proof (rule read_chunks.raw_induct
    [where P = "\<lambda>E frame chunk s y. callback_untouched s (snd y)", OF _ assms], goal_cases)
  case (1 chunks E frame chunk s y)
  from 1(2) show ?case
    by (auto simp: Let_def split_beta read_frame_metadata_def callback_untouched_def
        dest!: 1(1) split: chunk_id.splits if_splits compression_type.splits)
qed

lemma cu_read_image_buffer:
  "read_image_buffer E frame s = Some y \<Longrightarrow> callback_untouched s (snd y)"
  by (auto simp: read_image_buffer_def Let_def split_beta init_decoder_def callback_untouched_def
      dest!: cu_read_chunks split: if_splits)

lemma cu_prefetch_sample:
  "prefetch_sample E s = Some y \<Longrightarrow> callback_untouched s (snd y)"
  by (auto simp: prefetch_sample_def Let_def callback_untouched_def
      dest!: cu_read_image_buffer
      split: if_splits sample_type.splits option.splits sum.splits prod.splits)

lemma cu_wait_for_front:
  assumes "wait_for_front E s = Some s'"
  shows "callback_untouched s s'"
proof (rule wait_for_front.raw_induct
    [where P = "\<lambda>E s s'. callback_untouched s s'", OF _ assms], goal_cases)
  case (1 wait E s s')
  from 1(2) show ?case
    by (auto simp: Let_def callback_untouched_def index_next_samples_def
        dest!: 1(1) split: if_splits)
qed

lemma cu_read_next_sample:
  "read_next_sample E s = Some y \<Longrightarrow> callback_untouched s (snd y)"
  using cu_notify [of s]
  by (auto simp: read_next_sample_def callback_untouched_def
      dest!: cu_index_until_desc cu_prefetch_sample cu_wait_for_front
      split: if_splits option.splits sum.splits prod.splits)

lemma cu_find_next:
  "find_next E s index next_index = Some y \<Longrightarrow> callback_untouched s (fst y)"
proof (induction E s index next_index rule: find_next.induct)
  case (1 E s index next_index)
  define x where "x = (if length (m_samples_desc s) \<le> index + 1
                       then index_next_samples (NUMBER_OF_SAMPLES_TO_INDEX E) s else s)"
  have sx: "callback_untouched s x"
    by (simp add: x_def cu_refl cu_index_next_samples)
  show ?case
  proof (cases "length next_index < length (m_active_streams_info s)
                \<and> \<not> (length (m_samples_desc s) \<le> index + 1 \<and> m_is_index_complete s)")
    case False
    then have "y = (s, next_index)"
      using 1(5) by (subst (asm) find_next.simps) (auto split: if_splits)
    then show ?thesis by (simp add: cu_refl)
  next
    case True
    then have c1: "length next_index < length (m_active_streams_info s)"
      and c2: "\<not> (length (m_samples_desc s) \<le> index + 1 \<and> m_is_index_complete s)"
      by auto
    have body:
      "(if length (m_samples_desc x) \<le> index + 1 then
          (if NUMBER_OF_SAMPLES_TO_INDEX E = 0 then None else find_next E x index next_index)
        else if info_type (m_samples_desc x ! (index + 1)) \<noteq> st_image
        then find_next E x (index + 1) next_index
        else if find_key next_index (finfo_stream (m_samples_desc x ! (index + 1))) \<noteq> None
        then find_next E x (index + 1) next_index
        else find_next E x (index + 1)
               (put_key next_index (finfo_stream (m_samples_desc x ! (index + 1))) (index + 1)))
       = Some y"
    proof -
      have e1: "(length next_index < length (m_active_streams_info s)) = True"
        and e2: "(length (m_samples_desc s) \<le> index + 1 \<and> m_is_index_complete s) = False"
        using c1 c2 by simp_all
      show ?thesis
        using 1(5) by (subst (asm) find_next.simps) (simp only: e1 e2 Let_def x_def if_True if_False)
    qed
    have "callback_untouched x (fst y)"
      using body 1(1) [OF c1 c2 x_def] 1(2) [OF c1 c2 x_def] 1(3) [OF c1 c2 x_def]
        1(4) [OF c1 c2 x_def]
      by (auto split: if_splits)
    with sx show ?thesis using cu_trans by blast
  qed
qed

lemma cu_decode_streams:
  "decode_streams E ks prev_index next_index sample_index strm rv s = Some y
     \<Longrightarrow> callback_untouched s (snd y)"
proof (induction ks arbitrary: rv s)
  case Nil
  then show ?case by (auto simp: cu_refl)
next
  case (Cons k ks)
  from Cons.prems show ?case
    by (auto simp: Let_def cu_refl split: if_splits option.splits sum.splits prod.splits
        dest!: Cons.IH cu_read_image_buffer intro: cu_trans)
qed

lemma cu_find_nearest_frames:
  "find_nearest_frames E sample_index strm s = Some y \<Longrightarrow> callback_untouched s (snd y)"
  by (auto simp: find_nearest_frames_def Let_def callback_untouched_def
      split: option.splits sum.splits prod.splits
      dest!: cu_find_next cu_decode_streams cu_prefetch_sample)

lemma cu_pause: "callback_untouched s (pause s)"
  by (simp add: pause_def callback_untouched_def Let_def)

lemma cu_resume: "callback_untouched s (snd (resume s))"
  by (simp add: resume_def update_time_base_def callback_untouched_def Let_def)

lemma cu_index_until_image:
  "index_until_image E index stream_type s = Some s' \<Longrightarrow> callback_untouched s s'"
proof (induction E index stream_type s rule: index_until_image.induct)
  case (1 E index stream_type s)
  define s1 where "s1 = s\<lparr>m_image_indices := snd (subscript [] (m_image_indices s) stream_type)\<rparr>"
  have s1: "callback_untouched s s1"
    by (simp add: s1_def callback_untouched_def)
  show ?case
  proof (cases "length (fst (subscript [] (m_image_indices s) stream_type)) \<le> index
                \<and> \<not> m_is_index_complete s1")
    case False
    then have "s' = s1"
      using 1(2) by (subst (asm) index_until_image.simps) (auto simp: s1_def split_beta Let_def)
    then show ?thesis using s1 by simp
  next
    case True
    then have k: "NUMBER_OF_SAMPLES_TO_INDEX E \<noteq> 0"
      and r: "index_until_image E index stream_type
                (index_next_samples (NUMBER_OF_SAMPLES_TO_INDEX E) s1) = Some s'"
      using 1(2)
      by (subst (asm) index_until_image.simps, simp add: s1_def split_beta Let_def split: if_splits)+
    have "callback_untouched (index_next_samples (NUMBER_OF_SAMPLES_TO_INDEX E) s1) s'"
      using 1(1) [OF refl prod.collapse refl _ k] True r
      by (simp add: s1_def)
    then show ?thesis
      using s1 cu_index_next_samples cu_trans by blast
  qed
qed

lemma cu_time_stamp_scan:
  "callback_untouched s (fst (time_stamp_scan E ts s index))"
proof (induction E ts s index rule: time_stamp_scan.induct)
  case (1 E ts s index)
  define x where "x = (if length (m_samples_desc s) \<le> index
                       then index_next_samples (NUMBER_OF_SAMPLES_TO_INDEX E) s else s)"
  have sx: "callback_untouched s x"
    by (simp add: x_def cu_refl cu_index_next_samples)
  show ?case
  proof (cases "length (m_samples_desc s) \<le> index \<and> m_is_index_complete s")
    case True
    then show ?thesis
      by (subst time_stamp_scan.simps) (simp add: cu_refl)
  next
    case False
    show ?thesis
    proof (cases "\<not> (index < length (m_samples_desc x)
                       \<and> info_type (m_samples_desc x ! index) = st_image
                       \<and> to_double ts \<le> finfo_time_stamp (m_samples_desc x ! index))
                  \<and> (index + 1) mod 2 ^ 32 \<noteq> 0")
      case True
      then have "time_stamp_scan E ts s index = time_stamp_scan E ts x (index + 1)"
        using False by (subst time_stamp_scan.simps) (auto simp: Let_def x_def)
      moreover have "callback_untouched x (fst (time_stamp_scan E ts x (index + 1)))"
        using 1 [OF False x_def] True by blast
      ultimately show ?thesis
        using sx cu_trans by metis
    next
      case stop: False
      then have "fst (time_stamp_scan E ts s index) = x"
        using False by (subst time_stamp_scan.simps) (auto simp: Let_def x_def)
      then show ?thesis using sx by simp
    qed
  qed
qed

lemma cu_seek_tail:
  assumes "(case find_nearest_frames E i strm s2 of
              None \<Rightarrow> None
            | Some (Inl e, s3) \<Rightarrow> Some (Inl e, s3)
            | Some (Inr rv, s3) \<Rightarrow>
                if \<not> previous_state then
                  (case resume s3 of
                     (Some e, s4) \<Rightarrow> Some (Inl e, s4)
                   | (None, s4) \<Rightarrow> Some (Inr rv, s4))
                else Some (Inr rv, s3)) = Some y"
  shows "callback_untouched s2 (snd y)"
proof -
  from assms obtain r s3 where f: "find_nearest_frames E i strm s2 = Some (r, s3)"
    by (cases "find_nearest_frames E i strm s2") auto
  have c3: "callback_untouched s2 s3"
    using cu_find_nearest_frames [OF f] by simp
  have "snd y = s3 \<or> snd y = snd (resume s3)"
    using assms f by (cases r; cases "resume s3"; cases "fst (resume s3)") (auto split: if_splits)
  then show ?thesis
    using c3 cu_resume [of s3] cu_trans by metis
qed

lemma cu_set_frame_by_index:
  assumes "set_frame_by_index E index stream_type s = Some y"
  shows "callback_untouched s (snd y)"
proof -
  from assms obtain s1 where s1: "index_until_image E index stream_type (pause s) = Some s1"
    by (cases "index_until_image E index stream_type (pause s)")
       (simp_all add: set_frame_by_index_def Let_def)
  have c1: "callback_untouched s s1"
    using cu_pause cu_index_until_image [OF s1] cu_trans by blast
  define s2 where "s2 = s1\<lparr>m_image_indices := snd (subscript [] (m_image_indices s1) stream_type)\<rparr>"
  have c2: "callback_untouched s s2"
    using c1 by (simp add: s2_def callback_untouched_def)
  show ?thesis
  proof (cases "length (fst (subscript [] (m_image_indices s1) stream_type)) \<le> index")
    case True
    then have "y = (Inr [], s2)"
      using assms s1 by (simp add: set_frame_by_index_def Let_def split_beta s2_def)
    then show ?thesis using c2 by simp
  next
    case False
    then have "callback_untouched s2 (snd y)"
      using assms s1
      by (intro cu_seek_tail [where previous_state = "m_pause s" and E = E
            and i = "fst (subscript [] (m_image_indices s1) stream_type) ! index"
            and strm = stream_type])
         (simp add: set_frame_by_index_def Let_def split_beta s2_def)
    then show ?thesis using c2 cu_trans by blast
  qed
qed

lemma cu_set_frame_by_time_stamp:
  assumes "set_frame_by_time_stamp E ts s = Some y"
  shows "callback_untouched s (snd y)"
proof -
  obtain s1 index strm where scan: "time_stamp_scan E ts (pause s) 0 = (s1, index, strm)"
    by (cases "time_stamp_scan E ts (pause s) 0") auto
  have c1: "callback_untouched s s1"
    using cu_pause [of s] cu_time_stamp_scan [of "pause s" E ts 0] scan cu_trans by fastforce
  show ?thesis
  proof (cases "strm = RS_STREAM_COUNT")
    case True
    then have "y = (Inr [], s1)"
      using assms scan by (simp add: set_frame_by_time_stamp_def Let_def)
    then show ?thesis using c1 by simp
  next
    case False
    then have "callback_untouched s1 (snd y)"
      using assms scan
      by (intro cu_seek_tail [where previous_state = "m_pause s" and E = E and i = index
            and strm = strm])
         (simp add: set_frame_by_time_stamp_def Let_def)
    then show ?thesis using c1 cu_trans by blast
  qed
qed

lemma all_descriptors_index_next_samples:
  "all_descriptors (index_next_samples n s) = all_descriptors s"
  by (cases "length (m_file_indexing s) < n")
     (simp_all add: all_descriptors_def index_next_samples_def Let_def)

subsection \<open>The pacing delay while time passes\<close>

lemma calc_sleep_time_mod:
  "calc_sleep_time s x mod 2 ^ 32 =
     (int (info_capture_time x) - int (m_base_ts s) - (int (clock s) - int (m_base_sys_time s)))
       mod 2 ^ 32"
proof -
  have d: "(2 ^ 32 :: int) dvd 2 ^ 64"
    by (simp add: le_imp_power_dvd)
  have "calc_sleep_time s x mod 2 ^ 32 =
          ((int (info_capture_time x) - int (m_base_ts s)
            - (int (clock s) - int (m_base_sys_time s)) mod 2 ^ 64) mod 2 ^ 64) mod 2 ^ 32"
    by (simp add: calc_sleep_time_def query_run_time_def to_int32_def Let_def mod_diff_left_eq)
  also have "\<dots> = (int (info_capture_time x) - int (m_base_ts s)
            - (int (clock s) - int (m_base_sys_time s)) mod 2 ^ 64) mod 2 ^ 32"
    by (rule mod_mod_cancel [OF d])
  also have "\<dots> = (int (info_capture_time x) - int (m_base_ts s)
            - ((int (clock s) - int (m_base_sys_time s)) mod 2 ^ 64) mod 2 ^ 32) mod 2 ^ 32"
    by (simp add: mod_diff_right_eq)
  also have "\<dots> = (int (info_capture_time x) - int (m_base_ts s)
            - (int (clock s) - int (m_base_sys_time s)) mod 2 ^ 32) mod 2 ^ 32"
    by (simp only: mod_mod_cancel [OF d])
  finally show ?thesis
    by (simp add: mod_diff_right_eq)
qed

lemma to_int32_range: "- (2 ^ 31) \<le> to_int32 y \<and> to_int32 y < 2 ^ 31"
proof -
  have "0 \<le> (y + 2 ^ 31) mod (2 ^ 32 :: int)" "(y + 2 ^ 31) mod (2 ^ 32 :: int) < 2 ^ 32"
    by simp_all
  then show ?thesis
    unfolding to_int32_def by simp
qed

lemma calc_sleep_time_range:
  "- (2 ^ 31) \<le> calc_sleep_time s x \<and> calc_sleep_time s x < 2 ^ 31"
  unfolding calc_sleep_time_def Let_def by (rule to_int32_range)

lemma small_multiple:
  fixes c :: int
  assumes "c mod 2 ^ 32 = 0" and "- (2 ^ 31) \<le> c" and "c < 2 ^ 31"
  shows "c = 0"
proof (cases "0 \<le> c")
  case True
  then have "c mod 2 ^ 32 = c"
    using assms(3) by simp
  then show ?thesis using assms(1) by simp
next
  case False
  then have "c mod 2 ^ 32 = c + 2 ^ 32"
    using assms(2) by (intro int_mod_pos_eq [where q = "- 1"]) simp_all
  then show ?thesis using assms(1,2) by simp
qed

lemma calc_sleep_time_later:
  assumes "clock s' = clock s + l" and "m_base_ts s' = m_base_ts s"
    and "m_base_sys_time s' = m_base_sys_time s"
  shows "calc_sleep_time s' x mod 2 ^ 32 = (calc_sleep_time s x - int l) mod 2 ^ 32"
proof -
  have "calc_sleep_time s' x mod 2 ^ 32 =
          ((int (info_capture_time x) - int (m_base_ts s)
             - (int (clock s) - int (m_base_sys_time s))) - int l) mod 2 ^ 32"
    unfolding calc_sleep_time_mod [of s'] assms
    by (rule arg_cong [where f = "\<lambda>v. v mod 2 ^ 32"]) simp
  also have "\<dots> = (calc_sleep_time s x mod 2 ^ 32 - int l) mod 2 ^ 32"
    by (simp only: calc_sleep_time_mod mod_diff_left_eq)
  finally show ?thesis
    by (simp add: mod_diff_left_eq)
qed

lemma calc_sleep_time_same:
  assumes "clock s' = clock s" and "m_base_ts s' = m_base_ts s"
    and "m_base_sys_time s' = m_base_sys_time s"
  shows "calc_sleep_time s' x = calc_sleep_time s x"
  by (simp add: calc_sleep_time_def query_run_time_def assms)

lemma calc_sleep_time_slept:
  assumes "0 < calc_sleep_time s x"
  shows "calc_sleep_time (s\<lparr>clock := clock s + nat (calc_sleep_time s x)\<rparr>) x = 0"
proof -
  let ?s = "s\<lparr>clock := clock s + nat (calc_sleep_time s x)\<rparr>"
  have "calc_sleep_time ?s x mod 2 ^ 32
          = (calc_sleep_time s x - int (nat (calc_sleep_time s x))) mod 2 ^ 32"
    by (rule calc_sleep_time_later) simp_all
  then have "calc_sleep_time ?s x mod 2 ^ 32 = 0"
    using assms by simp
  moreover have "- (2 ^ 31) \<le> calc_sleep_time ?s x \<and> calc_sleep_time ?s x < 2 ^ 31"
    by (rule calc_sleep_time_range)
  ultimately show ?thesis
    by (simp add: small_multiple)
qed

lemma delay_shrinks:
  fixes a b l :: int
  assumes "a mod 2 ^ 32 = (b - l) mod 2 ^ 32" and "0 < a" and "a < 2 ^ 31"
    and "0 < l" and "l < 2 ^ 31"
  shows "nat (a mod 2 ^ 32) < nat (b mod 2 ^ 32)"
proof -
  define u where "u = b mod 2 ^ 32"
  have u: "0 \<le> u" "u < 2 ^ 32"
    by (simp_all add: u_def)
  have a: "a mod 2 ^ 32 = a"
    using assms(2,3) by simp
  have e: "(u - l) mod 2 ^ 32 = a"
    using assms(1) a by (simp add: u_def mod_diff_left_eq)
  have "l \<le> u"
  proof (rule ccontr)
    assume "\<not> l \<le> u"
    then have "(u - l) mod 2 ^ 32 = u - l + 2 ^ 32"
      using u assms(5) by (intro int_mod_pos_eq [where q = "- 1"]) simp_all
    then show False
      using e assms(3,5) u by simp
  qed
  then have "(u - l) mod 2 ^ 32 = u - l"
    using u assms(4) by simp
  then have "a = u - l"
    using e by simp
  then show ?thesis
    using assms(2,4) a by (simp add: u_def)
qed

subsection \<open>What the steps of the read loop leave alone\<close>
lemma same_playback_refl: "same_playback s s"
  by (simp add: same_playback_def same_content_def)
lemma same_playback_trans:
  "same_playback a b \<Longrightarrow> same_playback b c \<Longrightarrow> same_playback a c"
  by (simp add: same_playback_def same_content_def)
lemma front_delay_same:
  assumes "m_prefetched_samples s' = m_prefetched_samples s" and "clock s' = clock s"
    and "same_playback s s'"
  shows "front_delay s' = front_delay s"
proof -
  have "calc_sleep_time s' x = calc_sleep_time s x" for x
    using assms(2,3) by (intro calc_sleep_time_same) (simp_all add: same_playback_def)
  then show ?thesis
    by (cases "m_prefetched_samples s") (simp_all add: front_delay_def assms(1))
qed
lemma sp_index_next_samples:
  "same_playback s (index_next_samples n s)
   \<and> m_samples_desc_index (index_next_samples n s) = m_samples_desc_index s
   \<and> m_prefetched_samples (index_next_samples n s) = m_prefetched_samples s
   \<and> clock (index_next_samples n s) = clock s"
  unfolding same_playback_def all_descriptors_index_next_samples
  by (simp add: index_next_samples_def Let_def same_content_def)
lemma sp_notify:
  "same_playback s (notify_available_samples s)
   \<and> m_samples_desc_index (notify_available_samples s) = m_samples_desc_index s
   \<and> clock (notify_available_samples s) = clock s
   \<and> (\<exists>del. m_prefetched_samples s = del @ m_prefetched_samples (notify_available_samples s))
   \<and> (m_prefetched_samples (notify_available_samples s) \<noteq> [] \<longrightarrow>
        m_pause s
        \<or> (0 < calc_sleep_time s (hd (m_prefetched_samples (notify_available_samples s)))
           \<and> m_realtime s))"
proof (induction s rule: notify_available_samples.induct)
  case (1 s)
  show ?case
  proof (cases "\<not> m_pause s \<and> m_prefetched_samples s \<noteq> []
                \<and> \<not> (0 < calc_sleep_time s (hd (m_prefetched_samples s)) \<and> m_realtime s)")
    case False
    then have "notify_available_samples s = s"
      by (subst notify_available_samples.simps) (auto split: list.splits)
    then show ?thesis using False by (auto simp: same_playback_refl)
  next
    case True
    then obtain front rest where q: "m_prefetched_samples s = front # rest"
      by (cases "m_prefetched_samples s") auto
    define s1 where "s1 = (if info_type front = st_image
                           then s\<lparr>m_active_streams_info :=
                                    bump decrement (m_active_streams_info s) (finfo_stream front)\<rparr>
                           else s)"
    define s2 where "s2 = s1\<lparr>delivered := delivered s1 @ [front]\<rparr>"
    define t where "t = s2\<lparr>m_prefetched_samples := rest\<rparr>"
    have ih: "same_playback t (notify_available_samples t)
       \<and> m_samples_desc_index (notify_available_samples t) = m_samples_desc_index t
       \<and> clock (notify_available_samples t) = clock t
       \<and> (\<exists>del. m_prefetched_samples t = del @ m_prefetched_samples (notify_available_samples t))
       \<and> (m_prefetched_samples (notify_available_samples t) \<noteq> [] \<longrightarrow>
            m_pause t
            \<or> (0 < calc_sleep_time t (hd (m_prefetched_samples (notify_available_samples t)))
               \<and> m_realtime t))"
      unfolding t_def using True q by (intro 1 [OF _ q _ s1_def s2_def]) auto
    have eq: "notify_available_samples s = notify_available_samples t"
      using True q
      by (subst notify_available_samples.simps) (auto simp: Let_def s1_def s2_def t_def)
    have sp: "same_playback s t" "m_samples_desc_index t = m_samples_desc_index s"
      "clock t = clock s" "m_prefetched_samples t = rest" "m_pause t = m_pause s"
      "m_realtime t = m_realtime s"
      by (simp_all add: same_playback_def all_descriptors_def same_content_def t_def s2_def
          s1_def)
    have c: "calc_sleep_time t x = calc_sleep_time s x" for x
      using sp by (intro calc_sleep_time_same) (simp_all add: same_playback_def)
    have a1: "same_playback s (notify_available_samples t)"
      using sp(1) ih same_playback_trans by blast
    have a2: "\<exists>del. m_prefetched_samples s = del @ m_prefetched_samples (notify_available_samples t)"
    proof -
      from ih obtain del where "rest = del @ m_prefetched_samples (notify_available_samples t)"
        using sp(4) by auto
      then have "m_prefetched_samples s
                   = (front # del) @ m_prefetched_samples (notify_available_samples t)"
        using q by simp
      then show ?thesis by blast
    qed
    show ?thesis
      unfolding eq using ih a1 a2 sp c by simp
  qed
qed
lemma sp_index_until_desc:
  "index_until_desc E s = Some s' \<Longrightarrow>
     same_playback s s'
     \<and> m_samples_desc_index s' = m_samples_desc_index s
     \<and> m_prefetched_samples s' = m_prefetched_samples s
     \<and> clock s' = clock s
     \<and> (m_samples_desc_index s' < length (m_samples_desc s') \<or> m_is_index_complete s')"
proof (induction E s rule: index_until_desc.induct)
  case (1 E s)
  show ?case
  proof (cases "length (m_samples_desc s) \<le> m_samples_desc_index s \<and> \<not> m_is_index_complete s")
    case False
    then have "s' = s"
      using 1(2) by (subst (asm) index_until_desc.simps) auto
    then show ?thesis using False by (auto simp: same_playback_refl)
  next
    case True
    then have k: "NUMBER_OF_SAMPLES_TO_INDEX E \<noteq> 0"
      and r: "index_until_desc E (index_next_samples (NUMBER_OF_SAMPLES_TO_INDEX E) s) = Some s'"
      using 1(2) by (subst (asm) index_until_desc.simps, simp split: if_splits)+
    from 1(1) [OF True k r] sp_index_next_samples [of s "NUMBER_OF_SAMPLES_TO_INDEX E"]
    show ?thesis
      using same_playback_trans by auto
  qed
qed
lemma total_index_until_desc:
  "0 < NUMBER_OF_SAMPLES_TO_INDEX E \<Longrightarrow> \<exists>s'. index_until_desc E s = Some s'"
proof (induction E s rule: index_until_desc.induct)
  case (1 E s)
  show ?case
  proof (cases "length (m_samples_desc s) \<le> m_samples_desc_index s \<and> \<not> m_is_index_complete s")
    case False
    then show ?thesis
      by (subst index_until_desc.simps) auto
  next
    case True
    have k: "NUMBER_OF_SAMPLES_TO_INDEX E \<noteq> 0"
      using 1(2) by simp
    from 1(1) [OF True k 1(2)] show ?thesis
      using True k by (subst index_until_desc.simps) simp
  qed
qed
lemma file_content:
  "can_seek (snd (read_chunk c f)) = can_seek f"
  "chunk_at (snd (read_chunk c f)) = chunk_at f"
  "bytes_at (snd (read_chunk c f)) = bytes_at f"
  "can_seek (snd (read_bytes n f)) = can_seek f"
  "chunk_at (snd (read_bytes n f)) = chunk_at f"
  "bytes_at (snd (read_bytes n f)) = bytes_at f"
  "can_seek (snd (set_position_current n f)) = can_seek f"
  "chunk_at (snd (set_position_current n f)) = chunk_at f"
  "bytes_at (snd (set_position_current n f)) = bytes_at f"
  "can_seek (snd (set_position_begin n f)) = can_seek f"
  "chunk_at (snd (set_position_begin n f)) = chunk_at f"
  "bytes_at (snd (set_position_begin n f)) = bytes_at f"
  by (simp_all add: read_chunk_def read_bytes_def set_position_current_def
      set_position_begin_def Let_def split: option.splits)

lemma read_chunks_fields:
  assumes "read_chunks E frame chunk s = Some y"
  shows "m_samples_desc (snd y) = m_samples_desc s
         \<and> m_is_index_complete (snd y) = m_is_index_complete s
         \<and> m_file_indexing (snd y) = m_file_indexing s
         \<and> can_seek (m_file_data_read (snd y)) = can_seek (m_file_data_read s)
         \<and> chunk_at (m_file_data_read (snd y)) = chunk_at (m_file_data_read s)
         \<and> bytes_at (m_file_data_read (snd y)) = bytes_at (m_file_data_read s)
         \<and> m_pause (snd y) = m_pause s \<and> m_realtime (snd y) = m_realtime s
         \<and> m_base_ts (snd y) = m_base_ts s \<and> m_base_sys_time (snd y) = m_base_sys_time s
         \<and> m_samples_desc_index (snd y) = m_samples_desc_index s
         \<and> clock (snd y) = clock s"
proof (rule read_chunks.raw_induct
    [where P = "\<lambda>E frame chunk s y. m_samples_desc (snd y) = m_samples_desc s
         \<and> m_is_index_complete (snd y) = m_is_index_complete s
         \<and> m_file_indexing (snd y) = m_file_indexing s
         \<and> can_seek (m_file_data_read (snd y)) = can_seek (m_file_data_read s)
         \<and> chunk_at (m_file_data_read (snd y)) = chunk_at (m_file_data_read s)
         \<and> bytes_at (m_file_data_read (snd y)) = bytes_at (m_file_data_read s)
         \<and> m_pause (snd y) = m_pause s \<and> m_realtime (snd y) = m_realtime s
         \<and> m_base_ts (snd y) = m_base_ts s \<and> m_base_sys_time (snd y) = m_base_sys_time s
         \<and> m_samples_desc_index (snd y) = m_samples_desc_index s
         \<and> clock (snd y) = clock s",
      OF _ assms], goal_cases)
  case (1 chunks E frame chunk s y)
  from 1(2) show ?case
    by (auto simp: Let_def split_beta read_frame_metadata_def file_content
        dest!: 1(1) split: chunk_id.splits if_splits compression_type.splits)
qed
lemma read_image_buffer_fields:
  assumes "read_image_buffer E frame s = Some y"
  shows "m_samples_desc (snd y) = m_samples_desc s
         \<and> m_is_index_complete (snd y) = m_is_index_complete s
         \<and> m_file_indexing (snd y) = m_file_indexing s
         \<and> can_seek (m_file_data_read (snd y)) = can_seek (m_file_data_read s)
         \<and> chunk_at (m_file_data_read (snd y)) = chunk_at (m_file_data_read s)
         \<and> bytes_at (m_file_data_read (snd y)) = bytes_at (m_file_data_read s)
         \<and> m_pause (snd y) = m_pause s \<and> m_realtime (snd y) = m_realtime s
         \<and> m_base_ts (snd y) = m_base_ts s \<and> m_base_sys_time (snd y) = m_base_sys_time s
         \<and> m_samples_desc_index (snd y) = m_samples_desc_index s
         \<and> clock (snd y) = clock s"
proof -
  define s1 where
    "s1 = s\<lparr>m_file_data_read := snd (set_position_begin (info_offset frame) (m_file_data_read s))\<rparr>"
  define s2 where "s2 = (if m_decoder s1 = None then init_decoder s1 else s1)"
  have a: "m_samples_desc s2 = m_samples_desc s
         \<and> m_is_index_complete s2 = m_is_index_complete s
         \<and> m_file_indexing s2 = m_file_indexing s
         \<and> can_seek (m_file_data_read s2) = can_seek (m_file_data_read s)
         \<and> chunk_at (m_file_data_read s2) = chunk_at (m_file_data_read s)
         \<and> bytes_at (m_file_data_read s2) = bytes_at (m_file_data_read s)
         \<and> m_pause s2 = m_pause s \<and> m_realtime s2 = m_realtime s
         \<and> m_base_ts s2 = m_base_ts s \<and> m_base_sys_time s2 = m_base_sys_time s
         \<and> m_samples_desc_index s2 = m_samples_desc_index s
         \<and> clock s2 = clock s"
    by (simp add: s2_def s1_def init_decoder_def file_content Let_def)
  show ?thesis
  proof (cases "fst (set_position_begin (info_offset frame) (m_file_data_read s))")
    case False
    then have "y = (Inr None, s2)"
      using assms by (auto simp: read_image_buffer_def split_beta Let_def s2_def s1_def)
    then show ?thesis using a by simp
  next
    case True
    then have "read_chunks E frame \<lparr>chunk_ident = chunk_other 0, chunk_size = 0\<rparr> s2 = Some y"
      using assms by (auto simp: read_image_buffer_def split_beta Let_def s2_def s1_def)
    from read_chunks_fields [OF this] show ?thesis
      using a by simp
  qed
qed

lemma sp_read_image_buffer:
  assumes "read_image_buffer E frame s = Some y"
  shows "same_playback s (snd y) \<and> m_samples_desc_index (snd y) = m_samples_desc_index s
         \<and> clock (snd y) = clock s"
  using read_image_buffer_fields [OF assms]
  by (simp add: same_playback_def same_content_def all_descriptors_def)
lemma sp_prefetch_sample:
  assumes "prefetch_sample E s = Some (r, s')"
  shows "same_playback s s' \<and> clock s' = clock s
     \<and> ((s' = s \<and> (length (m_samples_desc s) \<le> m_samples_desc_index s \<or> all_samples_bufferd E s))
        \<or> (m_samples_desc_index s' = m_samples_desc_index s + 1
           \<and> m_samples_desc_index s < length (m_samples_desc s)))"
proof (cases "length (m_samples_desc s) \<le> m_samples_desc_index s \<or> all_samples_bufferd E s")
  case True
  then have "s' = s"
    using assms by (auto simp: prefetch_sample_def)
  then show ?thesis using True by (simp add: same_playback_refl)
next
  case False
  define t where "t = s\<lparr>m_samples_desc_index := m_samples_desc_index s + 1\<rparr>"
  have t: "same_playback s t" "clock t = clock s"
    "m_samples_desc_index t = m_samples_desc_index s + 1"
    by (simp_all add: t_def same_playback_def same_content_def all_descriptors_def)
  have "same_playback t s' \<and> clock s' = clock t \<and> m_samples_desc_index s' = m_samples_desc_index t"
  proof (cases "info_type (m_samples_desc s ! m_samples_desc_index s) = st_image
                \<and> find_key (m_active_streams_info t)
                      (finfo_stream (m_samples_desc s ! m_samples_desc_index s)) \<noteq> None")
    case False
    then show ?thesis
      using assms \<open>\<not> (length (m_samples_desc s) \<le> m_samples_desc_index s \<or> all_samples_bufferd E s)\<close>
      unfolding prefetch_sample_def Let_def t_def [symmetric]
      by (auto simp: same_playback_def same_content_def all_descriptors_def
          split: if_splits sample_type.splits)
  next
    case True
    then obtain y where y: "read_image_buffer E (m_samples_desc s ! m_samples_desc_index s) t = Some y"
      using assms \<open>\<not> (length (m_samples_desc s) \<le> m_samples_desc_index s \<or> all_samples_bufferd E s)\<close>
      unfolding prefetch_sample_def Let_def t_def [symmetric]
      by (cases "read_image_buffer E (m_samples_desc s ! m_samples_desc_index s) t") auto
    have "same_playback (snd y) s' \<and> clock s' = clock (snd y)
            \<and> m_samples_desc_index s' = m_samples_desc_index (snd y)"
      using assms True y \<open>\<not> (length (m_samples_desc s) \<le> m_samples_desc_index s \<or> all_samples_bufferd E s)\<close>
      unfolding prefetch_sample_def Let_def t_def [symmetric]
      by (cases y)
         (auto simp: same_playback_def same_content_def all_descriptors_def
           split: option.splits sum.splits)
    then show ?thesis
      using sp_read_image_buffer [OF y] same_playback_trans by auto
  qed
  then show ?thesis
    using t False same_playback_trans by auto
qed
lemma total_prefetch_sample:
  assumes "m_samples_desc_index s < length (m_samples_desc s) \<longrightarrow>
             (\<forall>t. info_type (m_samples_desc s ! m_samples_desc_index s) \<noteq> st_undefined t)
             \<and> (info_type (m_samples_desc s ! m_samples_desc_index s) = st_image \<longrightarrow>
                 (\<exists>v u. read_image_buffer E (m_samples_desc s ! m_samples_desc_index s)
                           (s\<lparr>m_samples_desc_index := m_samples_desc_index s + 1\<rparr>)
                         = Some (Inr v, u)))"
  shows "\<exists>s'. prefetch_sample E s = Some (None, s')"
proof (cases "length (m_samples_desc s) \<le> m_samples_desc_index s \<or> all_samples_bufferd E s")
  case True
  then show ?thesis by (auto simp: prefetch_sample_def)
next
  case False
  then show ?thesis
    using assms
    by (cases "info_type (m_samples_desc s ! m_samples_desc_index s)")
       (auto simp: prefetch_sample_def Let_def split: option.splits)
qed
lemma front_delay_slept:
  assumes "0 < calc_sleep_time s (hd (m_prefetched_samples s))"
  shows "front_delay (s\<lparr>clock := clock s + nat (calc_sleep_time s (hd (m_prefetched_samples s)))\<rparr>) = 0"
  using calc_sleep_time_slept [OF assms]
  by (cases "m_prefetched_samples s") (simp_all add: front_delay_def)
lemma sp_wait_for_front:
  assumes "wait_for_front E s = Some s'"
  shows "same_playback s s' \<and> m_samples_desc_index s' = m_samples_desc_index s
         \<and> m_prefetched_samples s' = m_prefetched_samples s
         \<and> front_delay s' \<le> front_delay s"
proof (rule wait_for_front.raw_induct
    [where P = "\<lambda>E s s'. same_playback s s' \<and> m_samples_desc_index s' = m_samples_desc_index s
         \<and> m_prefetched_samples s' = m_prefetched_samples s
         \<and> front_delay s' \<le> front_delay s", OF _ assms], goal_cases)
  case (1 wait E s s')
  let ?d = "calc_sleep_time s (hd (m_prefetched_samples s))"
  show ?case
  proof (cases "1000 < ?d")
    case False
    then have "s' = s" using 1(2) by (simp add: Let_def)
    then show ?thesis by (simp add: same_playback_refl)
  next
    case long: True
    show ?thesis
    proof (cases "m_is_index_complete s")
      case True
      let ?t = "s\<lparr>clock := clock s + nat ?d\<rparr>"
      have "wait E ?t = Some s'"
        using 1(2) long True by (simp add: Let_def)
      note ih = 1(1) [OF this]
      have "front_delay ?t = 0"
        using long by (intro front_delay_slept) simp
      moreover have "same_playback s ?t"
        by (simp add: same_playback_def same_content_def all_descriptors_def)
      ultimately show ?thesis
        using ih same_playback_trans by auto
    next
      case False
      let ?t = "index_next_samples (NUMBER_OF_SAMPLES_TO_INDEX E) s"
      have "wait E ?t = Some s'"
        using 1(2) long False by (simp add: Let_def split: if_splits)
      note ih = 1(1) [OF this]
      have "front_delay ?t = front_delay s"
        using sp_index_next_samples [of s "NUMBER_OF_SAMPLES_TO_INDEX E"]
        by (intro front_delay_same) simp_all
      then show ?thesis
        using ih sp_index_next_samples [of s "NUMBER_OF_SAMPLES_TO_INDEX E"]
          same_playback_trans by auto
    qed
  qed
qed
lemma total_wait_for_front:
  assumes "0 < NUMBER_OF_SAMPLES_TO_INDEX E"
  shows "\<exists>s'. wait_for_front E s = Some s'"
proof (induction "length (m_file_indexing s) + (if m_is_index_complete s then 0 else 1)"
    arbitrary: s rule: less_induct)
  case less
  let ?d = "calc_sleep_time s (hd (m_prefetched_samples s))"
  show ?case
  proof (cases "1000 < ?d")
    case False
    then show ?thesis
      by (subst wait_for_front.simps) (simp add: Let_def)
  next
    case long: True
    show ?thesis
    proof (cases "m_is_index_complete s")
      case True
      let ?t = "s\<lparr>clock := clock s + nat ?d\<rparr>"
      have "calc_sleep_time ?t (hd (m_prefetched_samples s)) = 0"
        using long by (intro calc_sleep_time_slept) simp
      then have "wait_for_front E ?t = Some ?t"
        by (subst wait_for_front.simps) (simp add: Let_def)
      moreover have "wait_for_front E s = wait_for_front E ?t"
        using long True by (subst wait_for_front.simps) (simp add: Let_def)
      ultimately show ?thesis by simp
    next
      case False
      let ?t = "index_next_samples (NUMBER_OF_SAMPLES_TO_INDEX E) s"
      have "length (m_file_indexing ?t) + (if m_is_index_complete ?t then 0 else 1)
              < length (m_file_indexing s) + (if m_is_index_complete s then 0 else 1)"
        using False assms
        by (cases "m_file_indexing s") (auto simp: index_next_samples_def Let_def split: if_splits)
      from less [OF this] obtain s' where "wait_for_front E ?t = Some s'"
        by blast
      moreover have "wait_for_front E s = wait_for_front E ?t"
        using long False assms by (subst wait_for_front.simps) (simp add: Let_def)
      ultimately show ?thesis by simp
    qed
  qed
qed

subsection \<open>One iteration of the read loop\<close>

lemma all_samples_bufferd_queue:
  "all_samples_bufferd E s \<Longrightarrow> m_prefetched_samples s \<noteq> []"
  by (auto simp: all_samples_bufferd_def split: if_splits)

lemma sp_elapse:
  "same_playback s (elapse E s)"
  "m_samples_desc_index (elapse E s) = m_samples_desc_index s"
  "m_prefetched_samples (elapse E s) = m_prefetched_samples s"
  "clock (elapse E s) = clock s + lapse E (ticks s)"
  by (simp_all add: elapse_def same_playback_def same_content_def all_descriptors_def)

lemma cu_elapse: "callback_untouched s (elapse E s)"
  by (simp add: elapse_def callback_untouched_def)

lemma playable_same_playback:
  assumes "playable E s" and "same_playback s s'"
  shows "playable E s'"
  unfolding playable_def
proof (intro ballI conjI impI allI)
  fix x
  assume "x \<in> set (all_descriptors s')"
  then have x: "x \<in> set (all_descriptors s)"
    using assms(2) by (simp add: same_playback_def)
  then show "info_type x \<noteq> st_undefined t" for t
    using assms(1) by (simp add: playable_def)
  fix u :: disk_read_base
  assume "info_type x = st_image"
    and "same_content (m_file_data_read s') (m_file_data_read u)"
  moreover from this have "same_content (m_file_data_read s) (m_file_data_read u)"
    using assms(2) by (simp add: same_playback_def same_content_def)
  ultimately show "\<exists>v u'. read_image_buffer E x u = Some (Inr v, u')"
    using assms(1) x unfolding playable_def by blast
qed

lemma sp_read_next_sample:
  assumes "read_next_sample E s = Some (r, s1)"
  shows "same_playback s s1 \<and> (r = Inr False \<longrightarrow> exhausted s1)"
proof -
  let ?b = "notify_available_samples s"
  obtain c where c: "index_until_desc E ?b = Some c"
    using assms by (cases "index_until_desc E ?b") (simp_all add: read_next_sample_def)
  note ic = sp_index_until_desc [OF c]
  have sc: "same_playback s c"
    using sp_notify [of s] ic same_playback_trans by blast
  show ?thesis
  proof (cases "length (m_samples_desc c) \<le> m_samples_desc_index c
                \<and> length (m_prefetched_samples c) = 0")
    case True
    then have "r = Inr False" "s1 = c"
      using assms c by (simp_all add: read_next_sample_def)
    then show ?thesis
      using sc True ic by (auto simp: exhausted_def)
  next
    case False
    then obtain e d where d: "prefetch_sample E c = Some (e, d)"
      using assms c by (cases "prefetch_sample E c") (auto simp: read_next_sample_def)
    have sd: "same_playback s d"
      using sc sp_prefetch_sample [OF d] same_playback_trans by blast
    show ?thesis
    proof (cases e)
      case (Some err)
      then have "r = Inl err" "s1 = d"
        using assms c d False by (auto simp: read_next_sample_def)
      then show ?thesis using sd by simp
    next
      case None
      show ?thesis
      proof (cases "all_samples_bufferd E d \<and> m_realtime d")
        case False
        then have "r = Inr True" "s1 = d"
          using assms c d None \<open>\<not> (length (m_samples_desc c) \<le> m_samples_desc_index c
                \<and> length (m_prefetched_samples c) = 0)\<close>
          by (auto simp: read_next_sample_def)
        then show ?thesis using sd by simp
      next
        case True
        then have w: "wait_for_front E d = Some s1" and "r = Inr True"
          using assms c d None \<open>\<not> (length (m_samples_desc c) \<le> m_samples_desc_index c
                \<and> length (m_prefetched_samples c) = 0)\<close>
          by (cases "wait_for_front E d"; auto simp: read_next_sample_def)+
        then show ?thesis
          using sd sp_wait_for_front [OF w] same_playback_trans by blast
      qed
    qed
  qed
qed

lemma read_next_sample_step:
  assumes k: "0 < NUMBER_OF_SAMPLES_TO_INDEX E"
    and l: "0 < lapse E (ticks s)" "lapse E (ticks s) < 2 ^ 31"
    and run: "\<not> m_pause s"
    and ok: "playable E s"
  shows "\<exists>r s1. read_next_sample E (elapse E s) = Some (Inr r, s1)
           \<and> (r \<longrightarrow>
                length (all_descriptors s1) - m_samples_desc_index s1
                  < length (all_descriptors s) - m_samples_desc_index s
                \<or> length (all_descriptors s1) - m_samples_desc_index s1
                    = length (all_descriptors s) - m_samples_desc_index s
                  \<and> (length (m_prefetched_samples s1) < length (m_prefetched_samples s)
                     \<or> length (m_prefetched_samples s1) = length (m_prefetched_samples s)
                       \<and> front_delay s1 < front_delay s))"
proof -
  let ?a = "elapse E s"
  let ?b = "notify_available_samples ?a"
  note ea = sp_elapse [where s = s and E = E]
  note nb = sp_notify [of ?a]
  obtain c where c: "index_until_desc E ?b = Some c"
    using total_index_until_desc [OF k] by blast
  note ic = sp_index_until_desc [OF c]
  have sb: "same_playback s ?b"
    using ea(1) nb same_playback_trans by blast
  have sc: "same_playback s c"
    using sb ic same_playback_trans by blast
  have cur_c: "m_samples_desc_index c = m_samples_desc_index s"
    using ea nb ic by simp
  have clock_c: "clock c = clock ?a"
    using nb ic by simp
  obtain del where del: "m_prefetched_samples s = del @ m_prefetched_samples c"
    using ea nb ic by auto
  show ?thesis
  proof (cases "length (m_samples_desc c) \<le> m_samples_desc_index c
                \<and> length (m_prefetched_samples c) = 0")
    case True
    then have "read_next_sample E ?a = Some (Inr False, c)"
      using c by (simp add: read_next_sample_def)
    then show ?thesis
      by (intro exI [of _ False] exI [of _ c]) simp
  next
    case more: False
    have pc: "playable E c"
      using ok sc by (rule playable_same_playback)
    have "\<exists>d. prefetch_sample E c = Some (None, d)"
    proof (rule total_prefetch_sample, intro impI conjI)
      let ?x = "m_samples_desc c ! m_samples_desc_index c"
      assume "m_samples_desc_index c < length (m_samples_desc c)"
      then have x: "?x \<in> set (all_descriptors c)"
        by (simp add: all_descriptors_def)
      then show "\<forall>t. info_type ?x \<noteq> st_undefined t"
        using pc by (simp add: playable_def)
      assume "info_type ?x = st_image"
      moreover have "same_content (m_file_data_read c)
          (m_file_data_read (c\<lparr>m_samples_desc_index := m_samples_desc_index c + 1\<rparr>))"
        by (simp add: same_content_def)
      ultimately show "\<exists>v u. read_image_buffer E ?x
            (c\<lparr>m_samples_desc_index := m_samples_desc_index c + 1\<rparr>) = Some (Inr v, u)"
        using pc x unfolding playable_def by blast
    qed
    then obtain d where d: "prefetch_sample E c = Some (None, d)"
      by blast
    note pd = sp_prefetch_sample [OF d]
    have sd: "same_playback s d"
      using sc pd same_playback_trans by blast
    have "\<exists>e. (if all_samples_bufferd E d \<and> m_realtime d then wait_for_front E d else Some d) = Some e"
      using total_wait_for_front [OF k, of d] by simp
    then obtain e where e: "(if all_samples_bufferd E d \<and> m_realtime d
                             then wait_for_front E d else Some d) = Some e"
      by blast
    have se: "same_playback d e \<and> m_samples_desc_index e = m_samples_desc_index d
              \<and> m_prefetched_samples e = m_prefetched_samples d
              \<and> front_delay e \<le> front_delay d"
      using e sp_wait_for_front [of E d e] by (auto simp: same_playback_refl split: if_splits)
    have rns: "read_next_sample E ?a = Some (Inr True, e)"
      using c more d e by (auto simp: read_next_sample_def split: if_splits)
    have all_e: "all_descriptors e = all_descriptors s"
      using sd se same_playback_trans [of s d e] by (simp add: same_playback_def)
    have all_c: "all_descriptors c = all_descriptors s"
      using sc by (simp add: same_playback_def)
    have "length (all_descriptors e) - m_samples_desc_index e
            < length (all_descriptors s) - m_samples_desc_index s
          \<or> length (all_descriptors e) - m_samples_desc_index e
              = length (all_descriptors s) - m_samples_desc_index s
            \<and> (length (m_prefetched_samples e) < length (m_prefetched_samples s)
               \<or> length (m_prefetched_samples e) = length (m_prefetched_samples s)
                 \<and> front_delay e < front_delay s)"
    proof (cases "d = c")
      case False
      then have "m_samples_desc_index d = m_samples_desc_index c + 1"
        and "m_samples_desc_index c < length (m_samples_desc c)"
        using pd by auto
      moreover have "length (m_samples_desc c) \<le> length (all_descriptors c)"
        by (simp add: all_descriptors_def)
      ultimately have "length (all_descriptors e) - m_samples_desc_index e
            < length (all_descriptors s) - m_samples_desc_index s"
        using se cur_c all_e all_c by simp
      then show ?thesis by simp
    next
      case True
      then have noop: "length (m_samples_desc c) \<le> m_samples_desc_index c \<or> all_samples_bufferd E c"
        using pd by auto
      have qc: "m_prefetched_samples c \<noteq> []"
        using noop more all_samples_bufferd_queue by auto
      have cur_e: "m_samples_desc_index e = m_samples_desc_index s"
        using se True cur_c by simp
      have qe: "m_prefetched_samples e = m_prefetched_samples c"
        using se True by simp
      show ?thesis
      proof (cases "del = []")
        case False
        then show ?thesis
          using del qe cur_e all_e by simp
      next
        case True
        then have qs: "m_prefetched_samples s = m_prefetched_samples c"
          using del by simp
        have qb: "m_prefetched_samples ?b = m_prefetched_samples c"
          using ic by simp
        obtain front rest where fr: "m_prefetched_samples c = front # rest"
          using qc by (cases "m_prefetched_samples c") auto
        have due: "0 < calc_sleep_time ?a front"
          using nb qb fr run by (simp add: elapse_def)
        have "calc_sleep_time ?a front mod 2 ^ 32
                = (calc_sleep_time s front - int (lapse E (ticks s))) mod 2 ^ 32"
          using ea by (intro calc_sleep_time_later) (simp_all add: same_playback_def)
        then have "nat (calc_sleep_time ?a front mod 2 ^ 32) < nat (calc_sleep_time s front mod 2 ^ 32)"
          using due calc_sleep_time_range [of ?a front] l
          by (intro delay_shrinks [where l = "int (lapse E (ticks s))"]) simp_all
        then have "front_delay ?a < front_delay s"
          using fr qs ea by (simp add: front_delay_def)
        moreover have "front_delay c = front_delay ?a"
        proof (rule front_delay_same)
          show "m_prefetched_samples c = m_prefetched_samples ?a"
            using qs ea by simp
          show "clock c = clock ?a"
            by (rule clock_c)
          show "same_playback ?a c"
            using nb ic same_playback_trans by blast
        qed
        moreover have "front_delay e \<le> front_delay c"
          using se \<open>d = c\<close> by simp
        ultimately show ?thesis
          using qe qs cur_e all_e by simp
      qed
    qed
    then show ?thesis
      using rns by (intro exI [of _ True] exI [of _ e]) simp
  qed
qed

subsection \<open>The end of the file\<close>

lemma read_loop_eof:
  assumes "read_loop E eof0 s = Some y"
  shows "if eof0 then y = (None, True, s)
         else (fst (snd y) \<and> m_eof_callback s \<longrightarrow>
                 fst y = None \<and> eof_calls (snd (snd y)) = eof_calls s + 1 \<and> m_pause (snd (snd y)))
            \<and> (fst (snd y) \<and> \<not> m_eof_callback s \<longrightarrow>
                 fst y = Some Eof_callback_null \<and> eof_calls (snd (snd y)) = eof_calls s)
            \<and> (\<not> fst (snd y) \<longrightarrow> eof_calls (snd (snd y)) = eof_calls s)
            \<and> (fst (snd y) \<longrightarrow> exhausted (snd (snd y)))
            \<and> (\<not> fst (snd y) \<and> fst y = None \<longrightarrow> m_pause s)"
proof (rule read_loop.raw_induct
    [where P = "\<lambda>E eof0 s y. if eof0 then y = (None, True, s)
         else (fst (snd y) \<and> m_eof_callback s \<longrightarrow>
                 fst y = None \<and> eof_calls (snd (snd y)) = eof_calls s + 1 \<and> m_pause (snd (snd y)))
            \<and> (fst (snd y) \<and> \<not> m_eof_callback s \<longrightarrow>
                 fst y = Some Eof_callback_null \<and> eof_calls (snd (snd y)) = eof_calls s)
            \<and> (\<not> fst (snd y) \<longrightarrow> eof_calls (snd (snd y)) = eof_calls s)
            \<and> (fst (snd y) \<longrightarrow> exhausted (snd (snd y)))
            \<and> (\<not> fst (snd y) \<and> fst y = None \<longrightarrow> m_pause s)", OF _ assms],
    goal_cases)
  case (1 loop E eof0 s y)
  show ?case
  proof (cases "\<not> m_pause s \<and> \<not> eof0")
    case False
    then show ?thesis using 1(2) by auto
  next
    case True
    then obtain r s1 where rns: "read_next_sample E (elapse E s) = Some (r, s1)"
      using 1(2) by (cases "read_next_sample E (elapse E s)") auto
    have "callback_untouched s s1"
      using cu_read_next_sample [OF rns] cu_elapse cu_trans by fastforce
    then have same: "eof_calls s1 = eof_calls s" "m_eof_callback s1 = m_eof_callback s"
      by (simp_all add: callback_untouched_def)
    note sp = sp_read_next_sample [OF rns]
    have run: "\<not> m_pause s1"
      using sp True by (simp add: same_playback_def elapse_def)
    show ?thesis
    proof (cases r)
      case (Inl e)
      then show ?thesis using True rns 1(2) same by auto
    next
      case (Inr has_next)
      show ?thesis
      proof (cases has_next)
        case True
        then have "loop E False s1 = Some y"
          using \<open>\<not> m_pause s \<and> \<not> eof0\<close> rns Inr 1(2) by simp
        from 1(1) [OF this] show ?thesis
          using \<open>\<not> m_pause s \<and> \<not> eof0\<close> same run by simp
      next
        case False
        then have ex: "exhausted s1"
          using sp Inr by simp
        show ?thesis
        proof (cases "m_eof_callback s1")
          case False
          then show ?thesis
            using \<open>\<not> m_pause s \<and> \<not> eof0\<close> \<open>\<not> has_next\<close> rns Inr 1(2) same ex by auto
        next
          case True
          then have "loop E True (s1\<lparr>eof_calls := eof_calls s1 + 1, m_pause := True\<rparr>) = Some y"
            using \<open>\<not> m_pause s \<and> \<not> eof0\<close> \<open>\<not> has_next\<close> rns Inr 1(2) by simp
          from 1(1) [OF this] show ?thesis
            using \<open>\<not> m_pause s \<and> \<not> eof0\<close> True same ex by (simp add: exhausted_def)
        qed
      qed
    qed
  qed
qed

lemma read_loop_total:
  assumes k: "0 < NUMBER_OF_SAMPLES_TO_INDEX E"
    and l: "\<forall>n. 0 < lapse E n \<and> lapse E n < 2 ^ 31"
  shows "playable E s \<Longrightarrow> \<not> m_pause s \<Longrightarrow>
         \<exists>s'. read_loop E False s =
                 Some (if m_eof_callback s then None else Some Eof_callback_null, True, s')"
proof (induction s rule: wf_induct_rule [OF wf_measures
      [of "[\<lambda>s. length (all_descriptors s) - m_samples_desc_index s,
            \<lambda>s. length (m_prefetched_samples s), front_delay]"]])
  case (1 s)
  have l1: "0 < lapse E (ticks s)" and l2: "lapse E (ticks s) < 2 ^ 31"
    using l by simp_all
  from read_next_sample_step [OF k l1 l2 1(3) 1(2)]
  obtain r s1 where rns: "read_next_sample E (elapse E s) = Some (Inr r, s1)"
    and dec: "r \<longrightarrow>
                length (all_descriptors s1) - m_samples_desc_index s1
                  < length (all_descriptors s) - m_samples_desc_index s
                \<or> length (all_descriptors s1) - m_samples_desc_index s1
                    = length (all_descriptors s) - m_samples_desc_index s
                  \<and> (length (m_prefetched_samples s1) < length (m_prefetched_samples s)
                     \<or> length (m_prefetched_samples s1) = length (m_prefetched_samples s)
                       \<and> front_delay s1 < front_delay s)"
    by blast
  have sp: "same_playback s s1"
    using sp_read_next_sample [OF rns] sp_elapse(1) same_playback_trans by blast
  have "callback_untouched s s1"
    using cu_read_next_sample [OF rns] cu_elapse cu_trans by fastforce
  then have cb: "m_eof_callback s1 = m_eof_callback s"
    by (simp add: callback_untouched_def)
  show ?case
  proof (cases r)
    case True
    have "(s1, s) \<in> measures [\<lambda>s. length (all_descriptors s) - m_samples_desc_index s,
            \<lambda>s. length (m_prefetched_samples s), front_delay]"
      using dec True by auto
    moreover have "playable E s1"
      using 1(2) sp by (rule playable_same_playback)
    moreover have "\<not> m_pause s1"
      using 1(3) sp by (simp add: same_playback_def)
    ultimately obtain s' where
      "read_loop E False s1 =
         Some (if m_eof_callback s1 then None else Some Eof_callback_null, True, s')"
      using 1(1) by blast
    moreover have "read_loop E False s = read_loop E False s1"
      using rns True 1(3) by (subst read_loop.simps) simp
    ultimately show ?thesis
      using cb by simp
  next
    case False
    show ?thesis
    proof (cases "m_eof_callback s1")
      case False
      then have "read_loop E False s = Some (Some Eof_callback_null, True, s1)"
        using rns \<open>\<not> r\<close> 1(3) by (subst read_loop.simps) simp
      then show ?thesis
        using cb False by simp
    next
      case True
      let ?t = "s1\<lparr>eof_calls := eof_calls s1 + 1, m_pause := True\<rparr>"
      have "read_loop E True ?t = Some (None, True, ?t)"
        by (subst read_loop.simps) simp
      moreover have "read_loop E False s = read_loop E True ?t"
        using rns \<open>\<not> r\<close> True 1(3) by (subst read_loop.simps) simp
      ultimately show ?thesis
        using cb True by simp
    qed
  qed
qed

lemma read_thread_total:
  assumes "0 < NUMBER_OF_SAMPLES_TO_INDEX E"
    and "\<forall>n. 0 < lapse E n \<and> lapse E n < 2 ^ 31"
    and "playable E s" and "\<not> m_pause s"
  shows "\<exists>t. read_thread E s =
                Some (if m_eof_callback s then None else Some Eof_callback_null, True, t)"
proof -
  let ?s = "s\<lparr>m_base_sys_time := clock s\<rparr>"
  have "playable E ?s"
    using assms(3) by (simp add: playable_def all_descriptors_def)
  moreover have "\<not> m_pause ?s"
    using assms(4) by simp
  ultimately obtain s' where
    "read_loop E False ?s =
       Some (if m_eof_callback ?s then None else Some Eof_callback_null, True, s')"
    using read_loop_total [OF assms(1,2)] by blast
  then show ?thesis
    by (simp add: read_thread_def)
qed

lemma realtime_recording_eq:
  "realtime_recording =
     (opened [(0, some_stream_info 0)] [image 0 250 0] plain_file)
       \<lparr>m_pause := False, m_image_indices := [(0, [])],
        m_active_streams_info :=
          [(0, \<lparr>m_stream_info = some_stream_info 0, m_image_indices_copy = [],
                m_prefetched_samples_count = 0\<rparr>)],
        m_thread := Running, threads_started := 1, m_eof_callback := True\<rparr>"
  by (simp add: realtime_recording_def resume_def update_time_base_def enable_stream_def
      opened_def subscript_def joinable_def Let_def)

lemma plain_decodes:
  assumes "same_content plain_file (m_file_data_read u)" and "finfo_ctype x = none"
  shows "\<exists>v u'. read_image_buffer the_collaborators x u = Some (Inr v, u')"
proof -
  have f: "can_seek (m_file_data_read u) = (\<lambda>off. True)"
    "chunk_at (m_file_data_read u)
       = (\<lambda>off. Some \<lparr>chunk_ident = chunk_sample_data, chunk_size = 116\<rparr>)"
    using assms(1) by (simp_all add: same_content_def plain_file_def)
  show ?thesis
    by (simp add: read_image_buffer_def read_chunks.simps set_position_begin_def
        set_position_current_def read_chunk_def read_bytes_def init_decoder_def
        the_collaborators_def f assms(2) Let_def)
qed

lemma realtime_playable: "playable the_collaborators realtime_recording"
  unfolding playable_def
  by (auto simp: realtime_recording_eq all_descriptors_def opened_def image_def
      intro!: plain_decodes)

lemma realtime_play:
  "read_thread the_collaborators realtime_recording = Some (None, True, realtime_played)"
  unfolding realtime_played_def realtime_recording_eq
  by (simp add: read_thread_def read_loop.simps elapse_def read_next_sample_def
      prefetch_sample_def all_samples_bufferd_def notify_available_samples.simps
      index_until_desc.simps index_next_samples_def wait_for_front.simps
      read_image_buffer_def read_chunks.simps init_decoder_def set_position_begin_def
      set_position_current_def read_chunk_def read_bytes_def sizeof_chunk_def
      calc_sleep_time_def query_run_time_def to_int32_def subscript_def bump_def
      increment_def decrement_def some_stream_info_def
      opened_def the_collaborators_def image_def plain_file_def Let_def)

lemma seek_after_realtime_play:
  "set_frame_by_time_stamp the_collaborators 0 realtime_played =
     Some (Inr [(0, (image 0 250 0)\<lparr>data := Some 100\<rparr>)],
           realtime_played
             \<lparr>m_active_streams_info :=
                [(0, \<lparr>m_stream_info = some_stream_info 0, m_image_indices_copy = [],
                      m_prefetched_samples_count = 1\<rparr>)],
              m_prefetched_samples := [(image 0 250 0)\<lparr>data := Some 100\<rparr>],
              m_thread := Not_a_thread\<rparr>)"
  unfolding realtime_played_def realtime_recording_eq
  by (simp add: set_frame_by_time_stamp_def time_stamp_scan.simps pause_def to_double_def
      find_nearest_frames_def find_prev.simps find_next.simps select_sample_def
      prefetch_sample_def all_samples_bufferd_def
      read_image_buffer_def read_chunks.simps init_decoder_def set_position_begin_def
      set_position_current_def read_chunk_def read_bytes_def sizeof_chunk_def
      subscript_def bump_def increment_def some_stream_info_def RS_STREAM_COUNT_def
      opened_def the_collaborators_def image_def plain_file_def joinable_def Let_def)

lemma index_seek_after_realtime_play:
  "set_frame_by_index the_collaborators 0 0 realtime_played =
     Some (Inr [(0, (image 0 250 0)\<lparr>data := Some 100\<rparr>)],
           realtime_played
             \<lparr>m_active_streams_info :=
                [(0, \<lparr>m_stream_info = some_stream_info 0, m_image_indices_copy = [],
                      m_prefetched_samples_count = 1\<rparr>)],
              m_prefetched_samples := [(image 0 250 0)\<lparr>data := Some 100\<rparr>],
              m_thread := Not_a_thread\<rparr>)"
  unfolding realtime_played_def realtime_recording_eq
  by (simp add: set_frame_by_index_def index_until_image.simps pause_def
      find_nearest_frames_def find_prev.simps find_next.simps select_sample_def
      prefetch_sample_def all_samples_bufferd_def
      read_image_buffer_def read_chunks.simps init_decoder_def set_position_begin_def
      set_position_current_def read_chunk_def read_bytes_def sizeof_chunk_def
      subscript_def bump_def increment_def some_stream_info_def
      opened_def the_collaborators_def image_def plain_file_def joinable_def Let_def)

text \<open>
  C6. A play-through is a run of \<open>read_thread\<close> from a state that is not paused. In the
  model nothing but the loop itself sets \<open>m_pause\<close> while it runs.

  Whenever \<open>read_thread\<close> returns, \<open>eof\<close> being the value of its local variable at that
  moment: when \<open>eof\<close> is true the end of the file was reached, that is, the whole file is
  indexed, every descriptor is consumed and the queue is empty; with a callback set the
  callback has been invoked exactly once, nothing was thrown and \<open>m_pause\<close> is set; with
  no callback set the loop has thrown "end of file callback is null" and nothing was
  invoked. When the loop is left with \<open>eof\<close> false, the callback has not been invoked,
  and the loop was left by an exception or had not been entered (\<open>m_pause\<close> was set).

  And the play-through does complete: when the indexer's batch size is positive, every
  iteration of the loop takes between 1 microsecond and 2^31 microseconds, and the
  recording plays without an exception, \<open>read_thread\<close> returns with \<open>eof\<close> true, that is,
  with the callback invoked exactly once, or with the exception thrown when none is set.
  This holds in realtime mode too, where the loop spins until the front of the queue is
  due.

  Neither seek invokes the callback.
\<close>

theorem eof_callback_once:
  "(read_thread E s = Some (r, eof, s') \<longrightarrow>
       (eof \<longrightarrow> exhausted s')
     \<and> (eof \<and> m_eof_callback s \<longrightarrow>
          r = None \<and> eof_calls s' = eof_calls s + 1 \<and> m_pause s')
     \<and> (eof \<and> \<not> m_eof_callback s \<longrightarrow>
          r = Some Eof_callback_null \<and> eof_calls s' = eof_calls s)
     \<and> (\<not> eof \<longrightarrow> eof_calls s' = eof_calls s \<and> (r = None \<longrightarrow> m_pause s)))
   \<and> (0 < NUMBER_OF_SAMPLES_TO_INDEX E \<and> (\<forall>n. 0 < lapse E n \<and> lapse E n < 2 ^ 31)
      \<and> playable E s \<and> \<not> m_pause s \<longrightarrow>
        (\<exists>t. read_thread E s =
               Some (if m_eof_callback s then None else Some Eof_callback_null, True, t)))
   \<and> (set_frame_by_index E index stream_type s = Some (rv, s2) \<longrightarrow> eof_calls s2 = eof_calls s)
   \<and> (set_frame_by_time_stamp E ts s = Some (rv', s3) \<longrightarrow> eof_calls s3 = eof_calls s)"
proof (intro conjI impI)
  assume "set_frame_by_index E index stream_type s = Some (rv, s2)"
  from cu_set_frame_by_index [OF this] show "eof_calls s2 = eof_calls s"
    by (simp add: callback_untouched_def)
next
  assume "set_frame_by_time_stamp E ts s = Some (rv', s3)"
  from cu_set_frame_by_time_stamp [OF this] show "eof_calls s3 = eof_calls s"
    by (simp add: callback_untouched_def)
next
  assume "0 < NUMBER_OF_SAMPLES_TO_INDEX E \<and> (\<forall>n. 0 < lapse E n \<and> lapse E n < 2 ^ 31)
      \<and> playable E s \<and> \<not> m_pause s"
  then show "\<exists>t. read_thread E s =
               Some (if m_eof_callback s then None else Some Eof_callback_null, True, t)"
    by (intro read_thread_total) simp_all
next
  assume rt: "read_thread E s = Some (r, eof, s')"
  then obtain y where loop: "read_loop E False (s\<lparr>m_base_sys_time := clock s\<rparr>) = Some y"
    and y: "fst y = r" "fst (snd y) = eof" "eof_calls (snd (snd y)) = eof_calls s'"
      "m_pause (snd (snd y)) = m_pause s'" "exhausted (snd (snd y)) = exhausted s'"
    by (auto simp: read_thread_def exhausted_def split: option.splits prod.splits)
  note facts = read_loop_eof [OF loop, simplified] y
  { assume "eof"
    then show "exhausted s'" using facts by auto }
  { assume "eof \<and> m_eof_callback s"
    then show "r = None" using facts by auto }
  { assume "eof \<and> m_eof_callback s"
    then show "eof_calls s' = eof_calls s + 1" using facts by auto }
  { assume "eof \<and> m_eof_callback s"
    then show "m_pause s'" using facts by auto }
  { assume "eof \<and> \<not> m_eof_callback s"
    then show "r = Some Eof_callback_null" using facts by auto }
  { assume "eof \<and> \<not> m_eof_callback s"
    then show "eof_calls s' = eof_calls s" using facts by auto }
  { assume "\<not> eof"
    then show "eof_calls s' = eof_calls s" using facts by auto }
  { assume "\<not> eof" and "r = None"
    then show "m_pause s" using facts by auto }
qed

theorem eof_callback_once_witness:
  "0 < NUMBER_OF_SAMPLES_TO_INDEX the_collaborators
   \<and> (\<forall>n. 0 < lapse the_collaborators n \<and> lapse the_collaborators n < 2 ^ 31)
   \<and> playable the_collaborators realtime_recording
   \<and> \<not> m_pause realtime_recording
   \<and> m_realtime realtime_recording
   \<and> m_eof_callback realtime_recording
   \<and> eof_calls realtime_recording = 0
   \<and> (\<exists>t. read_thread the_collaborators realtime_recording = Some (None, True, t))
   \<and> read_thread the_collaborators realtime_recording = Some (None, True, realtime_played)
   \<and> delivered realtime_played = [(image 0 250 0)\<lparr>data := Some 100\<rparr>]
   \<and> exhausted realtime_played
   \<and> eof_calls realtime_played = 1
   \<and> m_pause realtime_played
   \<and> (\<exists>rv t. set_frame_by_index the_collaborators 0 0 realtime_played = Some (Inr rv, t)
         \<and> rv \<noteq> [] \<and> eof_calls t = 1)
   \<and> (\<exists>rv t. set_frame_by_time_stamp the_collaborators 0 realtime_played = Some (Inr rv, t)
         \<and> rv \<noteq> [] \<and> eof_calls t = 1)"
proof -
  have h: "0 < NUMBER_OF_SAMPLES_TO_INDEX the_collaborators"
    "\<forall>n. 0 < lapse the_collaborators n \<and> lapse the_collaborators n < 2 ^ 31"
    by (simp_all add: the_collaborators_def)
  have s: "\<not> m_pause realtime_recording" "m_realtime realtime_recording"
    "m_eof_callback realtime_recording" "eof_calls realtime_recording = 0"
    by (simp_all add: realtime_recording_eq opened_def)
  have d: "delivered realtime_played = [(image 0 250 0)\<lparr>data := Some 100\<rparr>]"
    by (simp add: realtime_played_def)
  note play = eof_callback_once [of the_collaborators realtime_recording None True
      realtime_played]
  have tot: "\<exists>t. read_thread the_collaborators realtime_recording = Some (None, True, t)"
    using play h realtime_playable s by simp
  have p: "exhausted realtime_played" "eof_calls realtime_played = 1" "m_pause realtime_played"
    using play s by (simp_all add: realtime_play)
  note seeks = eof_callback_once [of the_collaborators realtime_played _ _ _ 0 0
      "Inr [(0, (image 0 250 0)\<lparr>data := Some 100\<rparr>)]" _ 0
      "Inr [(0, (image 0 250 0)\<lparr>data := Some 100\<rparr>)]"]
  have i: "\<exists>rv t. set_frame_by_index the_collaborators 0 0 realtime_played = Some (Inr rv, t)
         \<and> rv \<noteq> [] \<and> eof_calls t = 1"
    using seeks p(2) by (simp add: index_seek_after_realtime_play)
  have t: "\<exists>rv t. set_frame_by_time_stamp the_collaborators 0 realtime_played = Some (Inr rv, t)
         \<and> rv \<noteq> [] \<and> eof_calls t = 1"
    using seeks p(2) by (simp add: seek_after_realtime_play)
  show ?thesis
    using h realtime_playable s tot realtime_play d p i t by blast
qed

subsection \<open>Seek by time stamp\<close>

lemma first_index_drop:
  "first_index P (drop j xs) =
     (if j < length xs
      then if P (xs ! j) then Some 0 else map_option Suc (first_index P (drop (Suc j) xs))
      else None)"
  by (cases "j < length xs") (simp_all add: Cons_nth_drop_Suc [symmetric])

lemma scan_anchor:
  assumes "0 < NUMBER_OF_SAMPLES_TO_INDEX E"
    and "length (all_descriptors s) < 2 ^ 32"
    and "j \<le> length (m_samples_desc s) \<or> m_is_index_complete s"
  shows "all_descriptors (fst (time_stamp_scan E ts s j)) = all_descriptors s
         \<and> (case first_index (at_or_after ts) (drop j (all_descriptors s)) of
               None \<Rightarrow> snd (snd (time_stamp_scan E ts s j)) = RS_STREAM_COUNT
             | Some d \<Rightarrow>
                 fst (snd (time_stamp_scan E ts s j)) = j + d
                 \<and> snd (snd (time_stamp_scan E ts s j)) = finfo_stream (all_descriptors s ! (j + d))
                 \<and> j + d < length (m_samples_desc (fst (time_stamp_scan E ts s j))))"
  using assms
proof (induction E ts s j rule: time_stamp_scan.induct)
  case (1 E ts s j)
  let ?A = "all_descriptors s"
  let ?k = "NUMBER_OF_SAMPLES_TO_INDEX E"
  show ?case
  proof (cases "length (m_samples_desc s) \<le> j \<and> m_is_index_complete s")
    case True
    then have "time_stamp_scan E ts s j = (s, j, RS_STREAM_COUNT)"
      by (subst time_stamp_scan.simps) simp
    moreover have "drop j ?A = []"
      using True by (simp add: all_descriptors_def)
    ultimately show ?thesis by simp
  next
    case False
    define x where "x = (if length (m_samples_desc s) \<le> j then index_next_samples ?k s else s)"
    have ax: "all_descriptors x = ?A"
      by (simp add: x_def all_descriptors_index_next_samples)
    have jx: "j < length (m_samples_desc x) \<or> (m_is_index_complete x \<and> length ?A \<le> j)"
    proof (cases "j < length (m_samples_desc s)")
      case True
      then show ?thesis by (simp add: x_def)
    next
      case ge: False
      then have nc: "\<not> m_is_index_complete s" and eq: "j = length (m_samples_desc s)"
        using False "1.prems"(3) by auto
      show ?thesis
      proof (cases "m_file_indexing s")
        case Nil
        then show ?thesis
          using nc eq "1.prems"(1) by (simp add: x_def index_next_samples_def all_descriptors_def Let_def)
      next
        case (Cons a list)
        then show ?thesis
          using nc eq "1.prems"(1) by (simp add: x_def index_next_samples_def Let_def)
      qed
    qed
    have nth: "j < length (m_samples_desc x) \<Longrightarrow> m_samples_desc x ! j = ?A ! j"
      using ax by (metis all_descriptors_def nth_append)
    have lenx: "length (m_samples_desc x) \<le> length ?A"
      using ax by (metis all_descriptors_def le_add1 length_append)
    show ?thesis
    proof (cases "j < length (m_samples_desc x) \<and> at_or_after ts (m_samples_desc x ! j)")
      case True
      then have "time_stamp_scan E ts s j = (x, j, finfo_stream (m_samples_desc x ! j))"
        using False by (subst time_stamp_scan.simps) (auto simp: Let_def x_def at_or_after_def)
      moreover have "first_index (at_or_after ts) (drop j ?A) = Some 0"
        using True nth lenx by (subst first_index_drop) simp
      ultimately show ?thesis
        using True nth ax by simp
    next
      case miss: False
      have nohit: "j < length ?A \<Longrightarrow> \<not> at_or_after ts (?A ! j)"
        using miss jx nth by auto
      show ?thesis
      proof (cases "(j + 1) mod 2 ^ 32 = 0")
        case True
        then have "time_stamp_scan E ts s j = (x, 0, RS_STREAM_COUNT)"
          using False miss by (subst time_stamp_scan.simps) (auto simp: Let_def x_def at_or_after_def)
        moreover have "length ?A \<le> j"
        proof (rule ccontr)
          assume "\<not> length ?A \<le> j"
          then have "j + 1 < 2 ^ 32" using "1.prems"(2) by simp
          then show False using True by simp
        qed
        then have "drop j ?A = []" by simp
        ultimately show ?thesis using ax by simp
      next
        case nowrap: False
        have step: "time_stamp_scan E ts s j = time_stamp_scan E ts x (j + 1)"
          using False miss nowrap
          by (subst time_stamp_scan.simps) (auto simp: Let_def x_def at_or_after_def)
        have pre: "j + 1 \<le> length (m_samples_desc x) \<or> m_is_index_complete x"
          using jx by auto
        have ih: "all_descriptors (fst (time_stamp_scan E ts x (j + 1))) = all_descriptors x
           \<and> (case first_index (at_or_after ts) (drop (j + 1) (all_descriptors x)) of
               None \<Rightarrow> snd (snd (time_stamp_scan E ts x (j + 1))) = RS_STREAM_COUNT
             | Some d \<Rightarrow>
                 fst (snd (time_stamp_scan E ts x (j + 1))) = j + 1 + d
                 \<and> snd (snd (time_stamp_scan E ts x (j + 1)))
                     = finfo_stream (all_descriptors x ! (j + 1 + d))
                 \<and> j + 1 + d < length (m_samples_desc (fst (time_stamp_scan E ts x (j + 1)))))"
          using miss nowrap "1.prems"(1,2) pre ax
          by (intro "1.IH" [OF False x_def]) (auto simp: at_or_after_def)
        show ?thesis
        proof (cases "j < length ?A")
          case True
          then have "first_index (at_or_after ts) (drop j ?A)
                       = map_option Suc (first_index (at_or_after ts) (drop (j + 1) ?A))"
            using nohit by (subst first_index_drop) simp
          then show ?thesis
            using ih step ax by (auto split: option.splits)
        next
          case False
          then have "drop j ?A = []" "drop (j + 1) ?A = []" by simp_all
          then show ?thesis
            using ih step ax by simp
        qed
      qed
    qed
  qed
qed

lemma first_index_None: "\<forall>x \<in> set xs. \<not> P x \<Longrightarrow> first_index P xs = None"
  by (induction xs) auto

lemma first_index_first:
  "i < length xs \<Longrightarrow> P (xs ! i) \<Longrightarrow> \<forall>j < i. \<not> P (xs ! j) \<Longrightarrow> first_index P xs = Some i"
proof (induction xs arbitrary: i)
  case Nil
  then show ?case by simp
next
  case (Cons x xs)
  show ?case
  proof (cases i)
    case 0
    then show ?thesis using Cons.prems by simp
  next
    case (Suc n)
    then have "\<not> P x" using Cons.prems(3) by auto
    moreover have "first_index P xs = Some n"
      using Cons.prems Suc by (intro Cons.IH) auto
    ultimately show ?thesis using Suc by simp
  qed
qed

lemma all_descriptors_pause: "all_descriptors (pause s) = all_descriptors s"
  by (simp add: all_descriptors_def pause_def Let_def)

text \<open>
  C2, as the code has it. The scan compares the requested time stamp with the frame time
  stamp \<open>finfo.time_stamp\<close> of the image samples, not with their capture time. With a
  positive batch size, fewer than 2^32 descriptors in the file and no image sample
  carrying the stream value \<open>RS_STREAM_COUNT\<close>: when no image sample of the file has
  a frame time stamp at or after \<open>ts\<close>, the seek returns the empty map; otherwise the scan
  stops at the first such sample, which is indexed by then, and the seek is the
  nearest-frame resolution at that anchor, followed by \<open>resume\<close> when playback was
  running. "At or after \<open>ts\<close>" is the comparison of the code, \<open>time_stamp >= (double)ts\<close>:
  the request is converted to a double first, which rounds it when it has more than 53
  significant bits, so that a request of 2^53 + 1 anchors on a frame stamped 2^53.
\<close>

theorem set_frame_by_time_stamp_anchor:
  assumes "0 < NUMBER_OF_SAMPLES_TO_INDEX E"
    and "length (all_descriptors s) < 2 ^ 32"
    and "\<forall>x \<in> set (all_descriptors s). info_type x = st_image \<longrightarrow> finfo_stream x \<noteq> RS_STREAM_COUNT"
  shows "((\<forall>x \<in> set (all_descriptors s). \<not> at_or_after ts x) \<longrightarrow>
            (\<exists>s1. set_frame_by_time_stamp E ts s = Some (Inr [], s1)))
       \<and> (\<forall>i. i < length (all_descriptors s) \<and> at_or_after ts (all_descriptors s ! i)
                \<and> (\<forall>j < i. \<not> at_or_after ts (all_descriptors s ! j)) \<longrightarrow>
            (\<exists>s1. time_stamp_scan E ts (pause s) 0 = (s1, i, finfo_stream (all_descriptors s ! i))
                 \<and> i < length (m_samples_desc s1)
                 \<and> m_samples_desc s1 ! i = all_descriptors s ! i
                 \<and> set_frame_by_time_stamp E ts s =
                     (case find_nearest_frames E i (finfo_stream (all_descriptors s ! i)) s1 of
                        None \<Rightarrow> None
                      | Some (Inl e, s3) \<Rightarrow> Some (Inl e, s3)
                      | Some (Inr rv, s3) \<Rightarrow>
                          if \<not> m_pause s then
                            (case resume s3 of
                               (Some e, s4) \<Rightarrow> Some (Inl e, s4)
                             | (None, s4) \<Rightarrow> Some (Inr rv, s4))
                          else Some (Inr rv, s3))))"
proof (intro conjI impI allI)
  let ?A = "all_descriptors s"
  obtain s1 idx strm where scan: "time_stamp_scan E ts (pause s) 0 = (s1, idx, strm)"
    by (cases "time_stamp_scan E ts (pause s) 0") auto
  have pre: "0 \<le> length (m_samples_desc (pause s)) \<or> m_is_index_complete (pause s)"
    by simp
  note anchor = scan_anchor [OF assms(1) _ pre, of ts, unfolded all_descriptors_pause scan,
      OF assms(2), simplified]
  { assume "\<forall>x \<in> set ?A. \<not> at_or_after ts x"
    then have "first_index (at_or_after ts) ?A = None"
      by (rule first_index_None)
    then have "strm = RS_STREAM_COUNT"
      using anchor by simp
    then show "\<exists>s1. set_frame_by_time_stamp E ts s = Some (Inr [], s1)"
      using scan by (simp add: set_frame_by_time_stamp_def Let_def) }
  { fix i
    assume i: "i < length ?A \<and> at_or_after ts (?A ! i) \<and> (\<forall>j < i. \<not> at_or_after ts (?A ! j))"
    then have "first_index (at_or_after ts) ?A = Some i"
      by (intro first_index_first) auto
    then have r: "idx = i" "strm = finfo_stream (?A ! i)" "i < length (m_samples_desc s1)"
      and a1: "all_descriptors s1 = ?A"
      using anchor by simp_all
    have nth: "m_samples_desc s1 ! i = ?A ! i"
      using r(3) a1 by (metis all_descriptors_def nth_append)
    have "strm \<noteq> RS_STREAM_COUNT"
      using r(2) i assms(3) by (auto simp: at_or_after_def)
    then have "set_frame_by_time_stamp E ts s =
                 (case find_nearest_frames E i (finfo_stream (?A ! i)) s1 of
                        None \<Rightarrow> None
                      | Some (Inl e, s3) \<Rightarrow> Some (Inl e, s3)
                      | Some (Inr rv, s3) \<Rightarrow>
                          if \<not> m_pause s then
                            (case resume s3 of
                               (Some e, s4) \<Rightarrow> Some (Inl e, s4)
                             | (None, s4) \<Rightarrow> Some (Inr rv, s4))
                          else Some (Inr rv, s3))"
      using scan r by (simp add: set_frame_by_time_stamp_def Let_def)
    then show "\<exists>s1. time_stamp_scan E ts (pause s) 0 = (s1, i, finfo_stream (?A ! i))
                 \<and> i < length (m_samples_desc s1)
                 \<and> m_samples_desc s1 ! i = ?A ! i
                 \<and> set_frame_by_time_stamp E ts s =
                     (case find_nearest_frames E i (finfo_stream (?A ! i)) s1 of
                        None \<Rightarrow> None
                      | Some (Inl e, s3) \<Rightarrow> Some (Inl e, s3)
                      | Some (Inr rv, s3) \<Rightarrow>
                          if \<not> m_pause s then
                            (case resume s3 of
                               (Some e, s4) \<Rightarrow> Some (Inl e, s4)
                             | (None, s4) \<Rightarrow> Some (Inr rv, s4))
                          else Some (Inr rv, s3))"
      using scan r nth by auto }
qed

lemma to_double_exact: "n < 2 ^ 53 \<Longrightarrow> to_double n = real n"
  by (simp add: to_double_def)

lemma to_double_rounds: "to_double 9007199254740993 = 9007199254740992"
  by (simp add: to_double_def bit_length.simps Let_def)

lemma large_time_stamp_all:
  "all_descriptors large_time_stamp_recording =
     [(image 1 100 0)\<lparr>finfo_time_stamp := 9007199254740992\<rparr>]"
  by (simp add: all_descriptors_def large_time_stamp_recording_def opened_def)

lemma two_clocks_all:
  "all_descriptors two_clocks_recording =
     [(image 1 100 0)\<lparr>finfo_time_stamp := 1\<rparr>, (image 1 200 200)\<lparr>finfo_time_stamp := 150\<rparr>]"
  by (simp add: all_descriptors_def two_clocks_recording_def opened_def)

theorem set_frame_by_time_stamp_anchor_witness:
  "0 < NUMBER_OF_SAMPLES_TO_INDEX the_collaborators
   \<and> length (all_descriptors two_clocks_recording) < 2 ^ 32
   \<and> list_all (\<lambda>x. info_type x = st_image \<and> finfo_stream x \<noteq> RS_STREAM_COUNT)
        (all_descriptors two_clocks_recording)
   \<and> \<not> at_or_after 50 (all_descriptors two_clocks_recording ! 0)
   \<and> at_or_after 50 (all_descriptors two_clocks_recording ! 1)
   \<and> (\<exists>s1. time_stamp_scan the_collaborators 50 (pause two_clocks_recording) 0 = (s1, 1, 1)
         \<and> m_samples_desc s1 ! 1 = (image 1 200 200)\<lparr>finfo_time_stamp := 150\<rparr>)
   \<and> list_all (\<lambda>x. \<not> at_or_after 500 x) (all_descriptors two_clocks_recording)
   \<and> (\<exists>s1. set_frame_by_time_stamp the_collaborators 500 two_clocks_recording = Some (Inr [], s1))
   \<and> finfo_time_stamp (all_descriptors large_time_stamp_recording ! 0) = 9007199254740992
   \<and> at_or_after 9007199254740993 (all_descriptors large_time_stamp_recording ! 0)
   \<and> (\<exists>s1. time_stamp_scan the_collaborators 9007199254740993 (pause large_time_stamp_recording) 0
               = (s1, 0, 1))"
proof -
  have h1: "0 < NUMBER_OF_SAMPLES_TO_INDEX the_collaborators"
    by (simp add: the_collaborators_def)
  have h2: "length (all_descriptors two_clocks_recording) < 2 ^ 32"
    by (simp add: two_clocks_all)
  have h3: "\<forall>x \<in> set (all_descriptors two_clocks_recording).
              info_type x = st_image \<longrightarrow> finfo_stream x \<noteq> RS_STREAM_COUNT"
    by (simp add: two_clocks_all image_def RS_STREAM_COUNT_def)
  have f0: "\<not> at_or_after 50 (all_descriptors two_clocks_recording ! 0)"
    and f1: "at_or_after 50 (all_descriptors two_clocks_recording ! 1)"
    and none: "\<forall>x \<in> set (all_descriptors two_clocks_recording). \<not> at_or_after 500 x"
    by (simp_all add: two_clocks_all at_or_after_def image_def to_double_exact)
  have g1: "0 < NUMBER_OF_SAMPLES_TO_INDEX the_collaborators"
    by (simp add: the_collaborators_def)
  have g2: "length (all_descriptors large_time_stamp_recording) < 2 ^ 32"
    by (simp add: large_time_stamp_all)
  have g3: "\<forall>x \<in> set (all_descriptors large_time_stamp_recording).
              info_type x = st_image \<longrightarrow> finfo_stream x \<noteq> RS_STREAM_COUNT"
    by (simp add: large_time_stamp_all image_def RS_STREAM_COUNT_def)
  have g4: "finfo_time_stamp (all_descriptors large_time_stamp_recording ! 0) = 9007199254740992"
    and g5: "at_or_after 9007199254740993 (all_descriptors large_time_stamp_recording ! 0)"
    by (simp_all add: large_time_stamp_all at_or_after_def image_def to_double_rounds)
  have "0 < length (all_descriptors large_time_stamp_recording)
          \<and> at_or_after 9007199254740993 (all_descriptors large_time_stamp_recording ! 0)
          \<and> (\<forall>j < 0. \<not> at_or_after 9007199254740993 (all_descriptors large_time_stamp_recording ! j))"
    using g5 by (simp add: large_time_stamp_all)
  with set_frame_by_time_stamp_anchor [OF g1 g2 g3, of 9007199254740993]
  have "\<exists>s1. time_stamp_scan the_collaborators 9007199254740993 (pause large_time_stamp_recording) 0
                = (s1, 0, finfo_stream (all_descriptors large_time_stamp_recording ! 0))"
    by blast
  then have c: "\<exists>s1. time_stamp_scan the_collaborators 9007199254740993
                        (pause large_time_stamp_recording) 0 = (s1, 0, 1)"
    by (simp add: large_time_stamp_all image_def)
  have first: "1 < length (all_descriptors two_clocks_recording)
                \<and> at_or_after 50 (all_descriptors two_clocks_recording ! 1)
                \<and> (\<forall>j < 1. \<not> at_or_after 50 (all_descriptors two_clocks_recording ! j))"
    using f0 f1 by (simp add: two_clocks_all)
  from set_frame_by_time_stamp_anchor [OF h1 h2 h3, of 50] first
  have "\<exists>s1. time_stamp_scan the_collaborators 50 (pause two_clocks_recording) 0
                = (s1, 1, finfo_stream (all_descriptors two_clocks_recording ! 1))
              \<and> m_samples_desc s1 ! 1 = all_descriptors two_clocks_recording ! 1"
    by blast
  then have a: "\<exists>s1. time_stamp_scan the_collaborators 50 (pause two_clocks_recording) 0 = (s1, 1, 1)
         \<and> m_samples_desc s1 ! 1 = (image 1 200 200)\<lparr>finfo_time_stamp := 150\<rparr>"
    by (simp add: two_clocks_all image_def)
  from set_frame_by_time_stamp_anchor [OF h1 h2 h3, of 500] none
  have b: "\<exists>s1. set_frame_by_time_stamp the_collaborators 500 two_clocks_recording = Some (Inr [], s1)"
    by blast
  have d: "list_all (\<lambda>x. info_type x = st_image \<and> finfo_stream x \<noteq> RS_STREAM_COUNT)
             (all_descriptors two_clocks_recording)"
    by (simp add: two_clocks_all image_def RS_STREAM_COUNT_def)
  have e: "list_all (\<lambda>x. \<not> at_or_after 500 x) (all_descriptors two_clocks_recording)"
    using none by (simp add: list_all_iff)
  show ?thesis
    using h1 h2 d f0 f1 a e b g4 g5 c by blast
qed

text \<open>
  C2 as the spec states it fails: the first sample of the recording is an image sample
  with capture time 100, at or after the requested 50, and the scan passes it (its frame
  time stamp is 1) and anchors on the second sample.
\<close>

theorem set_frame_by_time_stamp_counterexample:
  "info_type (all_descriptors two_clocks_recording ! 0) = st_image
   \<and> 50 \<le> info_capture_time (all_descriptors two_clocks_recording ! 0)
   \<and> fst (snd (time_stamp_scan the_collaborators 50 (pause two_clocks_recording) 0)) = 1"
  by (simp add: two_clocks_all image_def)
     (simp add: time_stamp_scan.simps index_next_samples_def pause_def two_clocks_recording_def
       opened_def the_collaborators_def image_def joinable_def to_double_exact Let_def)

end
